theory Spec2Isabelle
  imports Main
begin

section \<open>The model string and the brace-counting extractor\<close>

text \<open>
  \<^verbatim>\<open>modGLM.strModel\<close> is a Python \<^verbatim>\<open>str\<close>; here it is a \<^typ>\<open>string\<close>.
  Offsets are indices into it. The dictionary that \<^verbatim>\<open>extractObject\<close> returns, with
  its three keys \<^verbatim>\<open>'start'\<close>, \<^verbatim>\<open>'end'\<close> and \<^verbatim>\<open>'obj'\<close>, is a record.
\<close>

record objDict =
  ostart :: nat
  oend :: nat
  obj :: string

text \<open>Python's slice \<^verbatim>\<open>s[a:b]\<close> for non-negative \<^verbatim>\<open>a\<close>, \<^verbatim>\<open>b\<close>; it never raises.\<close>

definition slice :: "string \<Rightarrow> nat \<Rightarrow> nat \<Rightarrow> string" where
  "slice s a b = drop a (take b s)"

text \<open>
  The body of the \<^verbatim>\<open>for c in self.strModel[startInd:]\<close> loop of
  \<^verbatim>\<open>extractObject\<close>: the index is incremented first, then the brace counter is
  updated, then the loop breaks on a closing brace that brings the counter to zero.
  When the characters run out the loop simply ends.
\<close>

fun scan :: "string \<Rightarrow> nat \<Rightarrow> int \<Rightarrow> nat" where
  "scan [] endInd braceCount = endInd"
| "scan (c # cs) endInd braceCount =
     (let endInd' = endInd + 1;
          braceCount' = (if c = CHR ''{'' then braceCount + 1
                         else if c = CHR ''}'' then braceCount - 1
                         else braceCount)
      in if c = CHR ''}'' \<and> braceCount' = 0 then endInd'
         else scan cs endInd' braceCount')"

definition extractObject :: "string \<Rightarrow> nat \<Rightarrow> objDict" where
  "extractObject strModel startInd =
     (let endInd = scan (drop startInd strModel) startInd 0
      in \<lparr>ostart = startInd, oend = endInd, obj = slice strModel startInd endInd\<rparr>)"

subsection \<open>Brace depth of a text\<close>

definition brace_step :: "int \<Rightarrow> char \<Rightarrow> int" where
  "brace_step d c = (if c = CHR ''{'' then d + 1 else if c = CHR ''}'' then d - 1 else d)"

definition depth :: "string \<Rightarrow> int" where
  "depth t = foldl brace_step 0 t"

text \<open>
  The balanced-span property of the specification, over a text \<open>t\<close>: the depth is
  never negative at a prefix, it is positive at some prefix, it is zero at the end, the
  text ends with the closing brace, and no proper prefix at which the depth is zero
  comes after a prefix of positive depth (the depth comes back to zero only once).
\<close>

definition balanced_span :: "string \<Rightarrow> bool" where
  "balanced_span t \<longleftrightarrow>
     (\<forall>n \<le> length t. 0 \<le> depth (take n t)) \<and>
     (\<exists>n \<le> length t. 0 < depth (take n t)) \<and>
     depth t = 0 \<and> t \<noteq> [] \<and> last t = CHR ''}'' \<and>
     (\<forall>m n. m < n \<and> n < length t \<and> 0 < depth (take m t) \<longrightarrow> depth (take n t) \<noteq> 0)"

text \<open>
  The scan closes on \<open>cs\<close> when some closing brace of \<open>cs\<close> ends a prefix of depth
  zero: this is when the loop of \<^verbatim>\<open>extractObject\<close> leaves through its \<^verbatim>\<open>break\<close>.
\<close>

definition closes :: "string \<Rightarrow> bool" where
  "closes cs \<longleftrightarrow> (\<exists>k < length cs. cs ! k = CHR ''}'' \<and> depth (take (Suc k) cs) = 0)"

text \<open>The first brace character of a text, if it has one.\<close>

definition first_brace :: "string \<Rightarrow> char option" where
  "first_brace cs = List.find (\<lambda>c. c = CHR ''{'' \<or> c = CHR ''}'') cs"

text \<open>
  A closing brace at index \<open>k\<close> of \<open>cs\<close> that brings a counter started at \<open>b\<close> to zero.
\<close>

definition closing :: "int \<Rightarrow> string \<Rightarrow> nat \<Rightarrow> bool" where
  "closing b cs k \<longleftrightarrow> cs ! k = CHR ''}'' \<and> b + depth (take (Suc k) cs) = 0"

definition is_brace :: "char \<Rightarrow> bool" where
  "is_brace c \<longleftrightarrow> c = CHR ''{'' \<or> c = CHR ''}''"

text \<open>The text of the nested-containment example of the specification.\<close>

definition nested_house :: string where
  "nested_house = ''object house { name h1; object ZIPload { name z1; } }''"

section \<open>Regular expressions of the module\<close>

text \<open>
  The module searches the model with Python's \<^verbatim>\<open>re\<close>. The patterns it uses are built
  from literals, single characters of a class, \<^verbatim>\<open>\b\<close>, repetitions of one character
  class (\<^verbatim>\<open>\s+\<close>, \<^verbatim>\<open>\s*\<close>, \<^verbatim>\<open>.*?\<close>), optional items, alternatives, look-ahead and
  fixed-width look-behind.
  A character of the model is a code point below 256. It is a white-space character
  (\<^verbatim>\<open>\s\<close>, and what \<^verbatim>\<open>str.strip\<close> removes) when \<^verbatim>\<open>str.isspace\<close> holds of it: the
  code points 9 to 13, 28 to 32, 133 and 160. It is a word character (\<^verbatim>\<open>\w\<close>) when it is
  the underscore or \<^verbatim>\<open>str.isalnum\<close> holds of it: the ASCII letters and digits, and
  the letters and digits among the code points from 170 on.
\<close>

definition is_space :: "char \<Rightarrow> bool" where
  "is_space c \<longleftrightarrow> c \<in> {CHR '' '', CHR 0x09, CHR 0x0A, CHR 0x0B, CHR 0x0C, CHR 0x0D,
                          CHR 0x1C, CHR 0x1D, CHR 0x1E, CHR 0x1F, CHR 0x85, CHR 0xA0}"

definition is_word :: "char \<Rightarrow> bool" where
  "is_word c \<longleftrightarrow> (let n = (of_char c :: nat) in
      (48 \<le> n \<and> n \<le> 57) \<or> (65 \<le> n \<and> n \<le> 90) \<or> n = 95 \<or> (97 \<le> n \<and> n \<le> 122)
      \<or> n = 170 \<or> n = 178 \<or> n = 179 \<or> n = 181 \<or> n = 185 \<or> n = 186
      \<or> (188 \<le> n \<and> n \<le> 190) \<or> (192 \<le> n \<and> n \<le> 214) \<or> (216 \<le> n \<and> n \<le> 246)
      \<or> (248 \<le> n \<and> n \<le> 255))"

datatype cclass = Space | AnyChar | OneChar char

fun in_class :: "cclass \<Rightarrow> char \<Rightarrow> bool" where
  "in_class Space c = is_space c"
| "in_class AnyChar c = (c \<noteq> CHR 0x0A)"
| "in_class (OneChar d) c = (c = d)"

datatype rx =
    Lit string
  | One cclass
  | WordB
  | Star cclass
  | Plus cclass
  | LazyStar cclass
  | Opt rx
  | Ahead rx
  | Behind rx
  | Seq rx rx
  | Alt rx rx
  | Eos

text \<open>\<^verbatim>\<open>\b\<close> at index \<open>i\<close>: exactly one of the characters on its two sides is a word
  character; beyond either end of the string there is none.\<close>

definition word_at :: "string \<Rightarrow> nat \<Rightarrow> bool" where
  "word_at s i \<longleftrightarrow> i < length s \<and> is_word (s ! i)"

definition boundary :: "string \<Rightarrow> nat \<Rightarrow> bool" where
  "boundary s i \<longleftrightarrow> ((0 < i \<and> word_at s (i - 1)) \<noteq> word_at s i)"

text \<open>The length of the longest run of characters of a class at the head of a text.\<close>

definition run :: "cclass \<Rightarrow> string \<Rightarrow> nat" where
  "run k cs = length (takeWhile (in_class k) cs)"

text \<open>The width of a fixed-width pattern, as a look-behind needs it.\<close>

fun width :: "rx \<Rightarrow> nat" where
  "width (Lit l) = length l"
| "width (One k) = 1"
| "width (Seq a b) = width a + width b"
| "width r = 0"

text \<open>
  \<open>ends r s i\<close> lists the offsets at which a match of \<open>r\<close> that starts at offset \<open>i\<close> of
  \<open>s\<close> can end, in the order in which the backtracking matcher tries them: a greedy
  repetition gives up its characters one at a time, a lazy one takes them one at a
  time, an optional item is tried before it is left out, and a sequence tries every
  continuation of an earlier choice before the next choice.
\<close>

fun ends :: "rx \<Rightarrow> string \<Rightarrow> nat \<Rightarrow> nat list" where
  "ends (Lit l) s i = (if take (length l) (drop i s) = l then [i + length l] else [])"
| "ends (One k) s i = (if i < length s \<and> in_class k (s ! i) then [Suc i] else [])"
| "ends WordB s i = (if boundary s i then [i] else [])"
| "ends (Star k) s i = rev [i ..< Suc (i + run k (drop i s))]"
| "ends (Plus k) s i = rev [Suc i ..< Suc (i + run k (drop i s))]"
| "ends (LazyStar k) s i = [i ..< Suc (i + run k (drop i s))]"
| "ends (Opt r) s i = ends r s i @ [i]"
| "ends (Ahead r) s i = (if ends r s i = [] then [] else [i])"
| "ends (Behind r) s i =
     (if width r \<le> i \<and> i \<in> set (ends r s (i - width r)) then [i] else [])"
| "ends (Seq a b) s i = concat (map (ends b s) (ends a s i))"
| "ends (Alt a b) s i = ends a s i @ ends b s i"
| "ends Eos s i = (if i = length s then [i] else [])"

text \<open>
  \<^verbatim>\<open>pattern.search(string, pos)\<close>: the first offset from \<open>pos\<close> on, up to the end of the
  string, at which the pattern matches, with the end of the first match the matcher
  finds there. The result is the span of the match object, or \<open>None\<close>.
\<close>

function search :: "rx \<Rightarrow> string \<Rightarrow> nat \<Rightarrow> (nat \<times> nat) option" where
  "search r s pos =
     (if length s < pos then None
      else (case ends r s pos of
              e # _ \<Rightarrow> Some (pos, e)
            | [] \<Rightarrow> search r s (Suc pos)))"
  by pat_completeness auto
termination
  by (relation "measure (\<lambda>(r, s, pos). Suc (length s) - pos)") auto

declare search.simps [simp del]




definition HOUSE_REGEX :: rx where
  "HOUSE_REGEX = Seq WordB (Seq (Lit ''object'') (Seq WordB (Seq (Plus Space)
                    (Seq WordB (Seq (Lit ''house'') WordB)))))"


definition CLOCK_REGEX :: rx where
  "CLOCK_REGEX = Seq WordB (Seq (Lit ''clock'') (Seq WordB (Seq (Star Space)
                    (Ahead (Lit ''{'')))))"

definition POWERFLOW_REGEX :: rx where
  "POWERFLOW_REGEX = Seq WordB (Seq (Lit ''module'') (Seq WordB (Seq (Plus Space)
                    (Seq WordB (Seq (Lit ''powerflow'') WordB)))))"

section \<open>Patterns that are built from a name\<close>

text \<open>
  Two patterns are built at run time, from a name that the caller gives: the name
  is pasted into the text of the pattern as it is, without escaping, and the text is
  handed to \<^verbatim>\<open>re\<close>. \<open>OBJY_BY_NAME name\<close> is \<^verbatim>\<open>OBJY_BY_NAME.format(name)\<close>, the text
  \<^verbatim>\<open>\bname\b(\s+)("?)NAME("?)(\s*);\<close>; \<open>exp p\<close> is the text
  \<^verbatim>\<open>r'(?<=\b' + p + r'\b)(\s+)(.*?)(?=;)'\<close> of \<^verbatim>\<open>extractProperties\<close>.
\<close>

definition name_head :: string where
  "name_head = [CHR 0x5C] @ ''bname'' @ [CHR 0x5C] @ ''b('' @ [CHR 0x5C] @ ''s+)(\"?)''"

definition name_tail :: string where
  "name_tail = ''(\"?)('' @ [CHR 0x5C] @ ''s*);''"

definition OBJY_BY_NAME :: "string \<Rightarrow> string" where
  "OBJY_BY_NAME name = name_head @ name @ name_tail"

definition exp_head :: string where
  "exp_head = ''(?<='' @ [CHR 0x5C] @ ''b''"

definition exp_tail :: string where
  "exp_tail = [CHR 0x5C] @ ''b)('' @ [CHR 0x5C] @ ''s+)(.*?)(?=;)''"

definition exp :: "string \<Rightarrow> string" where
  "exp p = exp_head @ p @ exp_tail"

text \<open>
  What the two texts stand for when the name stands for itself: the name is a
  literal of the pattern.
\<close>

definition name_regex :: "string \<Rightarrow> rx" where
  "name_regex name = Seq WordB (Seq (Lit ''name'') (Seq WordB (Seq (Plus Space)
       (Seq (Opt (Lit ''\"'')) (Seq (Lit name) (Seq (Opt (Lit ''\"''))
       (Seq (Star Space) (Lit '';''))))))))"

definition prop_regex :: "string \<Rightarrow> rx" where
  "prop_regex p = Seq (Behind (Seq WordB (Seq (Lit p) WordB)))
                    (Seq (Plus Space) (Seq (LazyStar AnyChar) (Ahead (Lit '';''))))"

text \<open>The errors that the functions raise; \<open>ReError\<close> is \<^verbatim>\<open>re.error\<close>, raised for a
  text that is not a pattern.\<close>

datatype error =
    ObjNotFoundError string
  | PropNotInObjError string string
  | IndexError
  | KeyError
  | ReError

text \<open>
  The functions that build a pattern take the reading of pattern texts as an
  argument \<open>re\<close>: it gives the pattern that a text stands for, or the error. A name
  is literal when it has none of the characters that are special in a pattern, and
  a reading is faithful when it reads the two texts of every literal name as above,
  as \<^verbatim>\<open>re\<close> does. Nothing is assumed on how the texts of other names are read.
\<close>

type_synonym compiler = "string \<Rightarrow> error + rx"

definition special :: string where
  "special = ''.^$*+?{}[]|()'' @ [CHR 0x5C]"

definition literal :: "string \<Rightarrow> bool" where
  "literal p \<longleftrightarrow> (\<forall>c \<in> set p. c \<notin> set special)"

definition faithful :: "compiler \<Rightarrow> bool" where
  "faithful re \<longleftrightarrow> (\<forall>p. literal p \<longrightarrow> re (exp p) = Inr (prop_regex p)
                                     \<and> re (OBJY_BY_NAME p) = Inr (name_regex p))"

text \<open>A reading reads the property pattern of the name \<open>p\<close> as that of a literal.\<close>

definition reads :: "compiler \<Rightarrow> string \<Rightarrow> bool" where
  "reads re p \<longleftrightarrow> re (exp p) = Inr (prop_regex p)"

text \<open>The part of a text between a head and a tail, when the text has both.\<close>

definition between :: "string \<Rightarrow> string \<Rightarrow> string \<Rightarrow> string option" where
  "between h t s =
     (if length h + length t \<le> length s \<and> take (length h) s = h
         \<and> drop (length s - length t) s = t
      then Some (take (length s - length h - length t) (drop (length h) s))
      else None)"

text \<open>
  A reading for the examples. It reads the texts of literal names as above, and the
  texts of four names with special characters as \<^verbatim>\<open>re\<close> reads them: in \<^verbatim>\<open>a.b\<close> and
  \<^verbatim>\<open>r.1\<close> the dot is any character but a newline, in \<^verbatim>\<open>x)}|(y\<close> the parenthesis of
  the name closes the look-behind and the bar splits the pattern in two
  alternatives, \<^verbatim>\<open>(?<=\bx)}\<close> and \<^verbatim>\<open>(y\b)(\s+)(.*?)(?=;)\<close>, and \<^verbatim>\<open>(\<close> leaves a
  parenthesis open, which is an error. Every other text is left unread, as an error.
  The functions of the module whose property names are constants of the program
  (\<^verbatim>\<open>name\<close>, \<^verbatim>\<open>groupid\<close>, the properties of the clock and of the powerflow module)
  use this reading; all these names are literal.
\<close>

definition re_compile :: compiler where
  "re_compile t =
     (case between exp_head exp_tail t of
        Some p \<Rightarrow>
          if literal p then Inr (prop_regex p)
          else if p = ''a.b'' then
            Inr (Seq (Behind (Seq WordB (Seq (Lit ''a'') (Seq (One AnyChar) (Seq (Lit ''b'') WordB)))))
                   (Seq (Plus Space) (Seq (LazyStar AnyChar) (Ahead (Lit '';'')))))
          else if p = ''x)}|(y'' then
            Inr (Alt (Seq (Behind (Seq WordB (Lit ''x''))) (Lit ''}''))
                     (Seq (Lit ''y'') (Seq WordB
                        (Seq (Plus Space) (Seq (LazyStar AnyChar) (Ahead (Lit '';'')))))))
          else Inl ReError
      | None \<Rightarrow>
          (case between name_head name_tail t of
             Some n \<Rightarrow>
               if literal n then Inr (name_regex n)
               else if n = ''r.1'' then
                 Inr (Seq WordB (Seq (Lit ''name'') (Seq WordB (Seq (Plus Space)
                        (Seq (Opt (Lit ''\"'')) (Seq (Lit ''r'') (Seq (One AnyChar) (Seq (Lit ''1'')
                        (Seq (Opt (Lit ''\"'')) (Seq (Star Space) (Lit '';'')))))))))))
               else Inl ReError
           | None \<Rightarrow> Inl ReError))"

section \<open>Reading and writing properties\<close>

text \<open>The entry, with its keys \<^verbatim>\<open>'prop'\<close>, \<^verbatim>\<open>'start'\<close> and \<^verbatim>\<open>'end'\<close>, that
  \<^verbatim>\<open>extractProperties\<close> stores for a property.\<close>

record propEntry =
  pprop :: string
  pstart :: nat
  pend :: nat

text \<open>\<^verbatim>\<open>str.strip\<close>: with no argument it removes white space at both ends, with
  an argument every leading and trailing character that is in the argument.\<close>

definition strip :: "(char \<Rightarrow> bool) \<Rightarrow> string \<Rightarrow> string" where
  "strip P s = rev (dropWhile P (rev (dropWhile P s)))"

definition propStr :: "string \<Rightarrow> string" where
  "propStr g = strip (\<lambda>c. c = CHR ''\"'') (strip is_space g)"

text \<open>
  The loop of \<^verbatim>\<open>extractProperties\<close> over \<^verbatim>\<open>props\<close>, with the dictionary built so
  far. \<^verbatim>\<open>re.search(exp, objString)\<close> reads the text of the pattern, which may raise,
  and searches. The first property that the search does not find raises, and the
  dictionary is lost.
\<close>

fun extractProperties_loop ::
  "compiler \<Rightarrow> string \<Rightarrow> string list \<Rightarrow> (string \<rightharpoonup> propEntry)
     \<Rightarrow> error + (string \<rightharpoonup> propEntry)" where
  "extractProperties_loop re objString [] outDict = Inr outDict"
| "extractProperties_loop re objString (p # ps) outDict =
     (case re (exp p) of
        Inl e \<Rightarrow> Inl e
      | Inr r \<Rightarrow>
          (case search r objString 0 of
             None \<Rightarrow> Inl (PropNotInObjError objString p)
           | Some (a, b) \<Rightarrow>
               extractProperties_loop re objString ps
                 (outDict(p \<mapsto> \<lparr>pprop = propStr (slice objString a b), pstart = a, pend = b\<rparr>))))"

definition extractProperties ::
  "compiler \<Rightarrow> string \<Rightarrow> string list \<Rightarrow> error + (string \<rightharpoonup> propEntry)" where
  "extractProperties re objString props = extractProperties_loop re objString props Map.empty"

text \<open>Property values are strings or integers; \<^verbatim>\<open>modObjProps\<close> writes \<^verbatim>\<open>str(value)\<close>.\<close>

datatype pyval = PStr string | PInt int

function digits :: "nat \<Rightarrow> string" where
  "digits n = (if n < 10 then [char_of (48 + n)]
               else digits (n div 10) @ [char_of (48 + n mod 10)])"
  by pat_completeness auto
termination
  by (relation "measure id") auto

declare digits.simps [simp del]

fun str :: "pyval \<Rightarrow> string" where
  "str (PStr s) = s"
| "str (PInt i) = (if i < 0 then CHR ''-'' # digits (nat (- i)) else digits (nat i))"

text \<open>
  \<^verbatim>\<open>modObjProps\<close>: the dictionary \<^verbatim>\<open>propDict\<close> is the list of its items in
  insertion order. A property that is found has the text between its name and its
  semicolon replaced; one that is not found is written in front of the last
  character of the object, and \<^verbatim>\<open>objStr[-1]\<close> raises on the empty string.
\<close>

fun modObjProps :: "compiler \<Rightarrow> string \<Rightarrow> (string \<times> pyval) list \<Rightarrow> error + string" where
  "modObjProps re objStr [] = Inr objStr"
| "modObjProps re objStr ((p, v) # rest) =
     (case extractProperties re objStr [p] of
        Inl (PropNotInObjError _ _) \<Rightarrow>
          (if objStr = [] then Inl IndexError
           else modObjProps re (butlast objStr @ ''  '' @ p @ '' '' @ str v @ '';'' @ [CHR 0x0A]
                                @ [last objStr]) rest)
      | Inl e \<Rightarrow> Inl e
      | Inr propVal \<Rightarrow>
          (case propVal p of
             None \<Rightarrow> Inl KeyError
           | Some e \<Rightarrow>
               modObjProps re (take (pstart e) objStr @ '' '' @ str v @ drop (pend e) objStr) rest))"

text \<open>\<^verbatim>\<open>replaceObject\<close>, on the model string.\<close>

definition replaceObject :: "string \<Rightarrow> objDict \<Rightarrow> string" where
  "replaceObject strModel objDict =
     take (ostart objDict) strModel @ obj objDict @ drop (oend objDict) strModel"


section \<open>Notions used in the statements\<close>

text \<open>A word-bounded occurrence of \<open>p\<close> that ends at offset \<open>i\<close> of \<open>s\<close>: what the
  look-behind of the property pattern asks for at \<open>i\<close>.\<close>

definition occurs_at :: "string \<Rightarrow> string \<Rightarrow> nat \<Rightarrow> bool" where
  "occurs_at p s i \<longleftrightarrow> length p \<le> i \<and> take (length p) (drop (i - length p) s) = p
       \<and> boundary s (i - length p) \<and> boundary s i"

text \<open>The part of the property pattern after the look-behind.\<close>

definition prop_tail :: rx where
  "prop_tail = Seq (Plus Space) (Seq (LazyStar AnyChar) (Ahead (Lit '';'')))"

text \<open>The entry of a property \<open>p\<close> that a search of the object text gives, if any.\<close>

definition entry_of :: "string \<Rightarrow> string \<Rightarrow> propEntry option" where
  "entry_of objString p =
     (case search (prop_regex p) objString 0 of
        None \<Rightarrow> None
      | Some (a, b) \<Rightarrow> Some \<lparr>pprop = propStr (slice objString a b), pstart = a, pend = b\<rparr>)"

text \<open>The regulator object of the replace-existing example of the specification.\<close>

definition regulator_obj :: string where
  "regulator_obj = ''object regulator {'' @ [CHR 0x0A] @ '' name reg1;'' @ [CHR 0x0A]
                   @ '' tap_A 5;'' @ [CHR 0x0A] @ ''}''"

text \<open>The capacitor object of the append-on-missing example of the specification.\<close>

definition capacitor_obj :: string where
  "capacitor_obj = ''object capacitor {'' @ [CHR 0x0A] @ '' name cap1;'' @ [CHR 0x0A] @ ''}''"

section \<open>Finding an object by name and type\<close>







section \<open>Adding a group to every object of a type\<close>

text \<open>
  The test on \<^verbatim>\<open>nameList\<close> in the loop of \<^verbatim>\<open>addGroupToObjects\<close>. Without a list
  every object is modified. With one, the name of the object is extracted (which may
  raise) and removed from the copy of the list; when it is not in the list
  (\<^verbatim>\<open>ValueError\<close>) the object is skipped. The result says whether the object is to be
  modified, with the copy of the list as it is afterwards.
\<close>

definition name_filter ::
  "string list option \<Rightarrow> string \<Rightarrow> error + (bool \<times> string list option)" where
  "name_filter nameListC objText =
     (case nameListC of
        None \<Rightarrow> Inr (True, None)
      | Some names \<Rightarrow>
          (case extractProperties re_compile objText [''name''] of
             Inl e \<Rightarrow> Inl e
           | Inr n \<Rightarrow>
               (case n ''name'' of
                  None \<Rightarrow> Inl KeyError
                | Some pe \<Rightarrow>
                    if pprop pe \<in> set names then Inr (True, Some (remove1 (pprop pe) names))
                    else Inr (False, Some names))))"

text \<open>
  The \<^verbatim>\<open>while m:\<close> loop. \<open>m\<close> is the span of the current match, if there is one. The
  loop gives the model it ends with, and with it the list of the offsets of the
  matches it has visited, each with a flag that says whether the object there was
  modified and with the length of the object text that the visit leaves at the offset
  (the new text, or the old one when the object is skipped); the source does not keep
  this list, it is there for the statements about the visits.
\<close>

function addGroup_loop ::
  "rx \<Rightarrow> string \<Rightarrow> string list option \<Rightarrow> string \<Rightarrow> (nat \<times> nat) option
     \<Rightarrow> error + (string \<times> (nat \<times> bool \<times> nat) list)" where
  "addGroup_loop objectRegex groupName nameListC strModel m =
     (case m of
        None \<Rightarrow> Inr (strModel, [])
      | Some (a, _) \<Rightarrow>
          (case name_filter nameListC (obj (extractObject strModel a)) of
             Inl e \<Rightarrow> Inl e
           | Inr (False, nl) \<Rightarrow>
               (case addGroup_loop objectRegex groupName nl strModel
                       (search objectRegex strModel (a + length (obj (extractObject strModel a)))) of
                  Inl e \<Rightarrow> Inl e
                | Inr (s, vs) \<Rightarrow>
                    Inr (s, (a, False, length (obj (extractObject strModel a))) # vs))
           | Inr (True, nl) \<Rightarrow>
               (case modObjProps re_compile (obj (extractObject strModel a)) [(''groupid'', PStr groupName)] of
                  Inl e \<Rightarrow> Inl e
                | Inr new \<Rightarrow>
                    (case addGroup_loop objectRegex groupName nl
                            (replaceObject strModel ((extractObject strModel a)\<lparr>obj := new\<rparr>))
                            (search objectRegex
                               (replaceObject strModel ((extractObject strModel a)\<lparr>obj := new\<rparr>))
                               (a + length new)) of
                       Inl e \<Rightarrow> Inl e
                     | Inr (s, vs) \<Rightarrow> Inr (s, (a, True, length new) # vs)))))"
  by pat_completeness auto
termination
proof (relation "measure (\<lambda>(r, g, nl, s, m). case m of None \<Rightarrow> 0 | Some (a, _) \<Rightarrow> Suc (length s - a))")
  have sb: "search r s pos = Some (a, e) \<Longrightarrow> pos \<le> a \<and> a \<le> length s" for r s pos a e
  proof (induction r s pos rule: search.induct)
    case (1 r s pos)
    show ?case
    proof (cases "ends r s pos")
      case Nil
      with "1.prems" have "\<not> length s < pos" "search r s (Suc pos) = Some (a, e)"
        by (auto simp: search.simps [of r s pos] simp del: search.simps split: if_splits)
      with "1.IH" Nil show ?thesis by auto
    next
      case (Cons x xs)
      with "1.prems" show ?thesis
        by (auto simp: search.simps [of r s pos] simp del: search.simps split: if_splits)
    qed
  qed
  have sc0: "e \<le> scan cs e b \<and> scan cs e b \<le> e + length cs" for cs e b
  proof (induction cs arbitrary: e b)
    case Nil show ?case by simp
  next
    case (Cons c cs)
    define b' where "b' = (if c = CHR ''{'' then b + 1 else if c = CHR ''}'' then b - 1 else b)"
    have "scan (c # cs) e b = (if c = CHR ''}'' \<and> b' = 0 then e + 1 else scan cs (e + 1) b')"
      by (simp add: Let_def b'_def)
    then show ?case using Cons.IH [of "e + 1" b'] by auto
  qed
  have sc: "scan cs e b \<le> e + length cs \<and> (cs \<noteq> [] \<longrightarrow> e < scan cs e b)" for cs e b
  proof (cases cs)
    case Nil then show ?thesis by simp
  next
    case (Cons c cs')
    define b' where "b' = (if c = CHR ''{'' then b + 1 else if c = CHR ''}'' then b - 1 else b)"
    have "scan (c # cs') e b = (if c = CHR ''}'' \<and> b' = 0 then e + 1 else scan cs' (e + 1) b')"
      by (simp add: Let_def b'_def)
    then show ?thesis using sc0 [of "e + 1" cs' b'] sc0 [of e cs b] Cons by auto
  qed
  have ex: "length (obj (extractObject s a)) = oend (extractObject s a) - a
            \<and> (a < length s \<longrightarrow> a < oend (extractObject s a) \<and> oend (extractObject s a) \<le> length s)
            \<and> (obj (extractObject s a) \<noteq> [] \<longrightarrow> a < length s)" for s a
    using sc [of "drop a s" a 0] by (auto simp: extractObject_def Let_def slice_def)
  have none: "search (prop_regex k) [] 0 = None" for k
  proof -
    have "ends (prop_regex k) [] 0 = []" by (simp add: prop_regex_def run_def)
    moreover have "search (prop_regex k) [] (Suc 0) = None"
      by (simp add: search.simps [of _ "[]" "Suc 0"] del: search.simps)
    ultimately show ?thesis
      by (simp add: search.simps [of _ "[]" 0] del: search.simps)
  qed
  have rd: "literal k \<Longrightarrow> re_compile (exp k) = Inr (prop_regex k)" for k
    by (simp add: re_compile_def between_def exp_def)
  have nf: "name_filter nl t = Inr (False, ya) \<Longrightarrow> t \<noteq> []" for nl t ya
    using none [of "''name''"] rd [of "''name''"]
    by (auto simp: name_filter_def extractProperties_def literal_def special_def
             split: option.splits sum.splits if_splits)
  have mo: "modObjProps re_compile t [(''groupid'', v)] = Inr new \<Longrightarrow> t \<noteq> []" for t v new
    using none [of "''groupid''"] rd [of "''groupid''"]
    by (auto simp: extractProperties_def literal_def special_def
             split: option.splits sum.splits if_splits)
  {
    fix objectRegex :: rx and nameListC :: "string list option"
      and strModel :: string and a :: nat and ya :: "string list option"
    assume f: "name_filter nameListC (obj (extractObject strModel a)) = Inr (False, ya)"
    let ?o = "extractObject strModel a"
    from nf [OF f] ex [of strModel a] have b: "a < length strModel" "a < oend ?o"
      "length (obj ?o) = oend ?o - a" by auto
    have "(case search objectRegex strModel (a + length (obj ?o)) of None \<Rightarrow> 0
            | Some (a', _) \<Rightarrow> Suc (length strModel - a')) < Suc (length strModel - a)"
    proof (cases "search objectRegex strModel (a + length (obj ?o))")
      case None then show ?thesis by simp
    next
      case (Some ae)
      obtain a' e' where ae: "ae = (a', e')" by (cases ae)
      from sb [OF Some [unfolded ae]] b have "a < a'" "a' \<le> length strModel" by auto
      then show ?thesis using Some ae by auto
    qed
  } note skip = this
  {
    fix objectRegex :: rx and groupName :: string
      and strModel :: string and a :: nat and new :: string
    assume f: "modObjProps re_compile (obj (extractObject strModel a)) [(''groupid'', PStr groupName)] = Inr new"
    let ?o = "extractObject strModel a"
    let ?s' = "replaceObject strModel (?o\<lparr>obj := new\<rparr>)"
    from mo [OF f] ex [of strModel a] have b: "a < length strModel" "a < oend ?o"
      "oend ?o \<le> length strModel" by auto
    have os: "ostart ?o = a" by (simp add: extractObject_def Let_def)
    have len: "length ?s' = a + length new + (length strModel - oend ?o)"
      using b os by (simp add: replaceObject_def)
    have "(case search objectRegex ?s' (a + length new) of None \<Rightarrow> 0
            | Some (a', _) \<Rightarrow> Suc (length ?s' - a')) < Suc (length strModel - a)"
    proof (cases "search objectRegex ?s' (a + length new)")
      case None then show ?thesis by simp
    next
      case (Some ae)
      obtain a' e' where ae: "ae = (a', e')" by (cases ae)
      from sb [OF Some [unfolded ae]] have "a + length new \<le> a'" "a' \<le> length ?s'" by auto
      then have "length ?s' - a' < length strModel - a" using len b by arith
      then show ?thesis using Some ae by simp
    qed
  } note trans = this
  show "wf (measure (\<lambda>(r, g, nl, s, m). case m of None \<Rightarrow> 0 | Some (a, _) \<Rightarrow> Suc (length s - a)))"
    by simp
  show "\<And>objectRegex groupName nameListC strModel m x2 x y b xa ya.
          m = Some x2 \<Longrightarrow> (x, y) = x2 \<Longrightarrow>
          name_filter nameListC (obj (extractObject strModel x)) = Inr b \<Longrightarrow>
          (xa, ya) = b \<Longrightarrow> xa = False \<Longrightarrow>
          ((objectRegex, groupName, ya, strModel,
            search objectRegex strModel (x + length (obj (extractObject strModel x)))),
           objectRegex, groupName, nameListC, strModel, m)
          \<in> measure (\<lambda>(r, g, nl, s, m). case m of None \<Rightarrow> 0 | Some (a, _) \<Rightarrow> Suc (length s - a))"
    using skip by auto
  show "\<And>objectRegex groupName nameListC strModel m x2 x y b xa ya ba.
          m = Some x2 \<Longrightarrow> (x, y) = x2 \<Longrightarrow>
          name_filter nameListC (obj (extractObject strModel x)) = Inr b \<Longrightarrow>
          (xa, ya) = b \<Longrightarrow> xa = True \<Longrightarrow>
          modObjProps re_compile (obj (extractObject strModel x)) [(''groupid'', PStr groupName)] = Inr ba \<Longrightarrow>
          ((objectRegex, groupName, ya,
            replaceObject strModel ((extractObject strModel x)\<lparr>obj := ba\<rparr>),
            search objectRegex (replaceObject strModel ((extractObject strModel x)\<lparr>obj := ba\<rparr>))
              (x + length ba)),
           objectRegex, groupName, nameListC, strModel, m)
          \<in> measure (\<lambda>(r, g, nl, s, m). case m of None \<Rightarrow> 0 | Some (a, _) \<Rightarrow> Suc (length s - a))"
    using trans by auto
qed

text \<open>\<^verbatim>\<open>addGroupToObjects\<close>: the copy of the list, the first search, and the loop.\<close>

definition addGroupToObjects :: "string \<Rightarrow> rx \<Rightarrow> string \<Rightarrow> string list option \<Rightarrow> error + string" where
  "addGroupToObjects strModel objectRegex groupName nameList =
     (case addGroup_loop objectRegex groupName nameList strModel (search objectRegex strModel 0) of
        Inl e \<Rightarrow> Inl e
      | Inr (s, vs) \<Rightarrow> Inr s)"

declare addGroup_loop.simps [simp del]

section \<open>The clock and the powerflow module\<close>

text \<open>
  An optional argument that is \<^verbatim>\<open>None\<close> or the empty string is false in a Python
  \<^verbatim>\<open>if\<close>. \<open>given x f\<close> is \<open>f\<close> of the argument when it is true, and empty otherwise.
\<close>

definition given :: "string option \<Rightarrow> (string \<Rightarrow> 'a list) \<Rightarrow> 'a list" where
  "given x f = (case x of None \<Rightarrow> [] | Some s \<Rightarrow> if s = [] then [] else f s)"

definition quoted :: "string \<Rightarrow> string" where
  "quoted s = [CHR 0x27] @ s @ [CHR 0x27]"

text \<open>The dictionary \<^verbatim>\<open>propDict\<close> that \<^verbatim>\<open>updateClock\<close> builds when there is a clock,
  and the text \<^verbatim>\<open>clockStr\<close> that it builds when there is none.\<close>

definition clock_props :: "string option \<Rightarrow> string option \<Rightarrow> string option \<Rightarrow> (string \<times> pyval) list" where
  "clock_props starttime stoptime timezone =
     given starttime (\<lambda>s. [(''starttime'', PStr (quoted s))])
     @ given stoptime (\<lambda>s. [(''stoptime'', PStr (quoted s))])
     @ given timezone (\<lambda>s. [(''timezone'', PStr s)])"

definition clockStr :: "string option \<Rightarrow> string option \<Rightarrow> string option \<Rightarrow> string" where
  "clockStr starttime stoptime timezone =
     ''clock {'' @ [CHR 0x0A]
     @ given timezone (\<lambda>s. ''  timezone '' @ s @ '';'' @ [CHR 0x0A])
     @ given starttime (\<lambda>s. ''  starttime '' @ quoted s @ '';'' @ [CHR 0x0A])
     @ given stoptime (\<lambda>s. ''  stoptime '' @ quoted s @ '';'' @ [CHR 0x0A])
     @ ''}'' @ [CHR 0x0A]"

text \<open>The part that \<^verbatim>\<open>updateClock\<close> and \<^verbatim>\<open>updatePowerflow\<close> share when the block
  is there: extract it at the match, modify its properties, splice it back.\<close>

definition modify_block :: "string \<Rightarrow> nat \<Rightarrow> (string \<times> pyval) list \<Rightarrow> error + string" where
  "modify_block strModel a propDict =
     (let blk = extractObject strModel a
      in case modObjProps re_compile (obj blk) propDict of
           Inl e \<Rightarrow> Inl e
         | Inr new \<Rightarrow> Inr (replaceObject strModel (blk\<lparr>obj := new\<rparr>)))"

definition updateClock ::
  "string \<Rightarrow> string option \<Rightarrow> string option \<Rightarrow> string option \<Rightarrow> error + string" where
  "updateClock strModel starttime stoptime timezone =
     (case search CLOCK_REGEX strModel 0 of
        Some (a, _) \<Rightarrow> modify_block strModel a (clock_props starttime stoptime timezone)
      | None \<Rightarrow> Inr (clockStr starttime stoptime timezone @ strModel))"

definition powerflow_props :: "string \<Rightarrow> string \<Rightarrow> string option \<Rightarrow> (string \<times> pyval) list" where
  "powerflow_props solver_method line_capacitance lu_solver =
     [(''solver_method'', PStr solver_method), (''line_capacitance'', PStr line_capacitance)]
     @ given lu_solver (\<lambda>s. [(''lu_solver'', PStr s)])"

definition powerflowStr :: "string \<Rightarrow> string \<Rightarrow> string option \<Rightarrow> string" where
  "powerflowStr solver_method line_capacitance lu_solver =
     ''module powerflow {'' @ [CHR 0x0A]
     @ ''  solver_method '' @ solver_method @ '';'' @ [CHR 0x0A]
     @ ''  line_capacitance '' @ line_capacitance @ '';'' @ [CHR 0x0A]
     @ given lu_solver (\<lambda>s. ''  lu_solver '' @ s @ '';'' @ [CHR 0x0A])
     @ ''};'' @ [CHR 0x0A]"

definition updatePowerflow ::
  "string \<Rightarrow> string \<Rightarrow> string \<Rightarrow> string option \<Rightarrow> error + string" where
  "updatePowerflow strModel solver_method line_capacitance lu_solver =
     (case search POWERFLOW_REGEX strModel 0 of
        Some (a, _) \<Rightarrow> modify_block strModel a (powerflow_props solver_method line_capacitance lu_solver)
      | None \<Rightarrow> Inr (powerflowStr solver_method line_capacitance lu_solver @ strModel))"







text \<open>
  A text is settled for a dictionary when the search for every key of the dictionary
  finds a span whose text is one space and the value of the key: the text that
  \<^verbatim>\<open>modObjProps\<close> writes for it.
\<close>

definition settled :: "string \<Rightarrow> (string \<times> pyval) list \<Rightarrow> bool" where
  "settled s m \<longleftrightarrow>
     (\<forall>kv \<in> set m. \<exists>a b. search (prop_regex (fst kv)) s 0 = Some (a, b)
                          \<and> slice s a b = '' '' @ str (snd kv))"

text \<open>No word-bounded occurrence of the key lies in front of the statement that the
  search for the key finds; when the search finds nothing, the key does not occur.\<close>

definition key_first :: "string \<Rightarrow> string \<Rightarrow> bool" where
  "key_first k s \<longleftrightarrow>
     (case search (prop_regex k) s 0 of
        None \<Rightarrow> \<forall>i. \<not> occurs_at k s i
      | Some (a, b) \<Rightarrow> \<forall>i<a. \<not> occurs_at k s i)"

text \<open>A regulator whose only mention of \<open>tap_A\<close> is in a comment.\<close>

definition commented_obj :: string where
  "commented_obj = ''object regulator {'' @ [CHR 0x0A] @ '' // tap_A'' @ [CHR 0x0A] @ ''}''"

section \<open>Properties of the extractor\<close>

lemma foldl_brace_step: "foldl brace_step b cs = b + depth cs"
  unfolding depth_def
proof (induction cs arbitrary: b rule: rev_induct)
  case Nil show ?case by simp
next
  case (snoc c cs)
  have "brace_step (foldl brace_step b cs) c = foldl brace_step b cs + brace_step 0 c"
       "brace_step (foldl brace_step 0 cs) c = foldl brace_step 0 cs + brace_step 0 c"
    by (simp_all add: brace_step_def)
  then show ?case using snoc.IH [of b] by simp
qed

lemma depth_Nil [simp]: "depth [] = 0" by (simp add: depth_def)

lemma depth_Cons: "depth (c # cs) = brace_step 0 c + depth cs"
  using foldl_brace_step [of "brace_step 0 c" cs] by (simp add: depth_def)

lemma depth_append: "depth (xs @ ys) = depth xs + depth ys"
  using foldl_brace_step [of "depth xs" ys] by (simp add: depth_def)

lemma depth_take_Suc: "k < length cs \<Longrightarrow> depth (take (Suc k) cs) = depth (take k cs) + brace_step 0 (cs ! k)"
  by (simp add: take_Suc_conv_app_nth depth_append depth_Cons)

lemma scan_shift: "scan cs e b = e + scan cs 0 b"
proof (induction cs arbitrary: e b)
  case Nil show ?case by simp
next
  case (Cons c cs)
  define b' where "b' = (if c = CHR ''{'' then b + 1 else if c = CHR ''}'' then b - 1 else b)"
  have "scan cs (e + 1) b' = e + 1 + scan cs 0 b'" "scan cs 1 b' = 1 + scan cs 0 b'"
    using Cons.IH [of "e + 1" b'] Cons.IH [of 1 b'] by simp_all
  then show ?case unfolding scan.simps Let_def b'_def [symmetric] by simp
qed


lemma closing_0: "closing b (c # cs) 0 \<longleftrightarrow> c = CHR ''}'' \<and> brace_step b c = 0"
  by (auto simp: closing_def depth_Cons brace_step_def)

lemma closing_Suc: "closing b (c # cs) (Suc k) \<longleftrightarrow> closing (brace_step b c) cs k"
  by (auto simp: closing_def depth_Cons brace_step_def)

lemma scan_Cons: "scan (c # cs) e b = (if closing b (c # cs) 0 then e + 1 else scan cs (e + 1) (brace_step b c))"
  by (auto simp: closing_0 brace_step_def Let_def)

lemma scan_le: "scan cs 0 b \<le> length cs"
proof (induction cs arbitrary: b)
  case Nil show ?case by simp
next
  case (Cons c cs)
  show ?case using Cons.IH [of "brace_step b c"] scan_shift [of cs 1]
    by (simp add: scan_Cons del: scan.simps)
qed

lemma scan_no_early: "Suc k < scan cs 0 b \<Longrightarrow> \<not> closing b cs k"
proof (induction cs arbitrary: b k)
  case Nil then show ?case by simp
next
  case (Cons c cs)
  show ?case
  proof (cases k)
    case 0 with Cons.prems show ?thesis by (auto simp: scan_Cons simp del: scan.simps)
  next
    case (Suc j)
    with Cons.prems Cons.IH [of j "brace_step b c"] scan_shift [of cs 1 "brace_step b c"]
    show ?thesis by (auto simp: scan_Cons closing_Suc simp del: scan.simps split: if_splits)
  qed
qed

lemma scan_closed: "k < length cs \<Longrightarrow> closing b cs k \<Longrightarrow> 0 < scan cs 0 b \<and> closing b cs (scan cs 0 b - 1)"
proof (induction cs arbitrary: b k)
  case Nil then show ?case by simp
next
  case (Cons c cs)
  show ?case
  proof (cases "closing b (c # cs) 0")
    case True then show ?thesis by (simp add: scan_Cons del: scan.simps)
  next
    case False
    then obtain j where j: "k = Suc j" using Cons.prems by (cases k) auto
    with Cons.prems have "j < length cs" "closing (brace_step b c) cs j" by (auto simp: closing_Suc)
    from Cons.IH [OF this] have "0 < scan cs 0 (brace_step b c)" "closing (brace_step b c) cs (scan cs 0 (brace_step b c) - 1)" by auto
    then show ?thesis using False scan_shift [of cs 1 "brace_step b c"]
      by (cases "scan cs 0 (brace_step b c)") (auto simp: scan_Cons closing_Suc simp del: scan.simps)
  qed
qed

lemma scan_open: "\<forall>k < length cs. \<not> closing b cs k \<Longrightarrow> scan cs 0 b = length cs"
proof (induction cs arbitrary: b)
  case Nil show ?case by simp
next
  case (Cons c cs)
  have "\<not> closing b (c # cs) 0" using Cons.prems by auto
  moreover have "\<forall>k < length cs. \<not> closing (brace_step b c) cs k"
    using Cons.prems by (auto simp: closing_Suc [symmetric])
  ultimately show ?case using Cons.IH [of "brace_step b c"] scan_shift [of cs 1 "brace_step b c"]
    by (simp add: scan_Cons del: scan.simps)
qed


lemma depth_no_brace: "\<forall>c \<in> set cs. \<not> is_brace c \<Longrightarrow> depth cs = 0"
  by (induction cs) (auto simp: depth_Cons brace_step_def is_brace_def)

lemma find_first: "\<forall>x \<in> set (take m cs). \<not> P x \<Longrightarrow> m < length cs \<Longrightarrow> P (cs ! m)
   \<Longrightarrow> List.find P cs = Some (cs ! m)"
proof (induction cs arbitrary: m)
  case Nil then show ?case by simp
next
  case (Cons c cs) then show ?case by (cases m) auto
qed

lemma first_brace_nth: "\<forall>x \<in> set (take m cs). \<not> is_brace x \<Longrightarrow> m < length cs \<Longrightarrow> is_brace (cs ! m)
   \<Longrightarrow> first_brace cs = Some (cs ! m)"
  using find_first [of m cs is_brace] by (simp add: first_brace_def is_brace_def [abs_def])

lemma open_first_inv:
  assumes fb: "first_brace cs = Some (CHR ''{'')"
  shows "m \<le> scan cs 0 0 \<Longrightarrow> 0 \<le> depth (take m cs) \<and>
     (m < scan cs 0 0 \<and> depth (take m cs) = 0 \<longrightarrow> (\<forall>c \<in> set (take m cs). \<not> is_brace c))"
proof (induction m)
  case 0 show ?case by simp
next
  case (Suc m)
  let ?n = "scan cs 0 0"
  from Suc.prems have m: "m < ?n" "m < length cs" using scan_le [of cs 0] by auto
  with Suc.IH have ih: "0 \<le> depth (take m cs)"
    "depth (take m cs) = 0 \<Longrightarrow> \<forall>c \<in> set (take m cs). \<not> is_brace c" by auto
  have step: "depth (take (Suc m) cs) = depth (take m cs) + brace_step 0 (cs ! m)"
    using m by (simp add: depth_take_Suc)
  have set_Suc: "set (take (Suc m) cs) = insert (cs ! m) (set (take m cs))"
    using m by (simp add: take_Suc_conv_app_nth)
  show ?case
  proof (cases "depth (take m cs) = 0")
    case True
    then have nb: "\<forall>c \<in> set (take m cs). \<not> is_brace c" by (rule ih(2))
    have "cs ! m \<noteq> CHR ''}''"
    proof
      assume "cs ! m = CHR ''}''"
      with first_brace_nth [OF nb m(2)] fb show False by (simp add: is_brace_def)
    qed
    then show ?thesis using True step nb set_Suc
      by (auto simp: brace_step_def is_brace_def)
  next
    case False
    with ih have pos: "0 < depth (take m cs)" by simp
    have "\<not> (Suc m < ?n \<and> depth (take (Suc m) cs) = 0)"
    proof
      assume a: "Suc m < ?n \<and> depth (take (Suc m) cs) = 0"
      with pos step have "cs ! m = CHR ''}''" by (auto simp: brace_step_def split: if_splits)
      with a have "closing 0 cs m" by (simp add: closing_def)
      with scan_no_early [of m cs 0] a show False by simp
    qed
    then show ?thesis using pos step by (auto simp: brace_step_def)
  qed
qed

lemma closes_closing: "closes cs \<longleftrightarrow> (\<exists>k < length cs. closing 0 cs k)"
  by (simp add: closes_def closing_def)

lemma slice_drop: "slice s a (a + n) = take n (drop a s)"
  by (simp add: slice_def drop_take)

lemma extractObject_obj: "obj (extractObject s a) = take (scan (drop a s) 0 0) (drop a s)"
  using scan_shift [of "drop a s" a 0] by (simp add: extractObject_def Let_def slice_drop)

lemma balanced_take:
  assumes c: "closes cs" and fb: "first_brace cs = Some (CHR ''{'')"
  shows "balanced_span (take (scan cs 0 0) cs)"
proof -
  let ?n = "scan cs 0 0"
  let ?t = "take ?n cs"
  from c obtain k where k: "k < length cs" "closing 0 cs k" by (auto simp: closes_closing)
  from scan_closed [OF k] have n0: "0 < ?n" and cl: "closing 0 cs (?n - 1)" by auto
  have nle: "?n \<le> length cs" by (rule scan_le)
  have len: "length ?t = ?n" using nle by simp
  have tk: "\<And>m. m \<le> ?n \<Longrightarrow> take m ?t = take m cs" by (simp add: min_def)
  have inv: "\<And>m. m \<le> ?n \<Longrightarrow> 0 \<le> depth (take m cs)"
    and inv0: "\<And>m. m < ?n \<Longrightarrow> depth (take m cs) = 0 \<Longrightarrow> \<forall>c \<in> set (take m cs). \<not> is_brace c"
  proof -
    fix m assume "m \<le> ?n"
    from open_first_inv [OF fb this] show "0 \<le> depth (take m cs)" by simp
  next
    fix m assume a: "m < ?n" and z: "depth (take m cs) = 0"
    from a have "m \<le> ?n" by simp
    from open_first_inv [OF fb this] a z show "\<forall>c \<in> set (take m cs). \<not> is_brace c" by blast
  qed
  from cl n0 have last_c: "cs ! (?n - 1) = CHR ''}''" and d0: "depth (take ?n cs) = 0"
    by (auto simp: closing_def)
  have "depth (take ?n cs) = depth (take (?n - 1) cs) + brace_step 0 (cs ! (?n - 1))"
    using depth_take_Suc [of "?n - 1" cs] n0 nle by simp
  with last_c d0 have d1: "depth (take (?n - 1) cs) = 1" by (simp add: brace_step_def)
  have p1: "\<forall>m \<le> length ?t. 0 \<le> depth (take m ?t)" using inv tk len by simp
  have p2: "\<exists>m \<le> length ?t. 0 < depth (take m ?t)"
    using d1 tk [of "?n - 1"] len by (intro exI [of _ "?n - 1"]) simp
  have p3: "depth ?t = 0" using d0 .
  have p4: "?t \<noteq> []" using n0 nle by auto
  have p5: "last ?t = CHR ''}''"
    using last_c n0 nle p4 len by (simp add: last_conv_nth)
  have p6: "\<forall>m n. m < n \<and> n < length ?t \<and> 0 < depth (take m ?t) \<longrightarrow> depth (take n ?t) \<noteq> 0"
  proof (intro allI impI notI)
    fix m n assume a: "m < n \<and> n < length ?t \<and> 0 < depth (take m ?t)" and z: "depth (take n ?t) = 0"
    from a len have mn: "m < n" "n < ?n" by auto
    with z tk [of n] have "depth (take n cs) = 0" by simp
    from inv0 [OF mn(2) this] have "\<forall>c \<in> set (take m cs). \<not> is_brace c"
      using mn(1) set_take_subset_set_take [of m n cs] by auto
    then have "depth (take m cs) = 0" by (rule depth_no_brace)
    with a tk [of m] mn show False by simp
  qed
  show ?thesis unfolding balanced_span_def using p1 p2 p3 p4 p5 p6 by blast
qed

lemma closes_scan: "closes cs \<longleftrightarrow> 0 < scan cs 0 0 \<and> closing 0 cs (scan cs 0 0 - 1)"
proof
  assume "closes cs"
  then obtain k where "k < length cs" "closing 0 cs k" by (auto simp: closes_closing)
  then show "0 < scan cs 0 0 \<and> closing 0 cs (scan cs 0 0 - 1)" by (rule scan_closed)
next
  assume a: "0 < scan cs 0 0 \<and> closing 0 cs (scan cs 0 0 - 1)"
  then have "scan cs 0 0 - 1 < length cs" using scan_le [of cs 0] by arith
  with a show "closes cs" unfolding closes_closing by blast
qed

lemma extractObject_fields:
  "ostart (extractObject s a) = a \<and> oend (extractObject s a) = a + scan (drop a s) 0 0"
  using scan_shift [of "drop a s" a 0] by (simp add: extractObject_def Let_def)

text \<open>
  Claim C1, as amended. When the text from \<open>startInd\<close> on has an opening brace as its
  first brace character and the scan closes, the text that \<^verbatim>\<open>extractObject\<close>
  returns is a balanced span: its depth is never negative, is positive somewhere, and is
  back at zero only at its last character, the closing brace. Starting at the keyword of
  the \<open>house\<close> object of the nested example the whole text is returned, the
  \<open>ZIPload\<close> block included.
\<close>

theorem extractObject_balanced_span:
  assumes "closes (drop startInd strModel)"
      and "first_brace (drop startInd strModel) = Some (CHR ''{'')"
  shows "balanced_span (obj (extractObject strModel startInd))
       \<and> oend (extractObject strModel startInd)
           = startInd + length (obj (extractObject strModel startInd))
       \<and> obj (extractObject nested_house 0) = nested_house"
proof -
  have a: "balanced_span (obj (extractObject strModel startInd))"
    using balanced_take [OF assms] by (simp add: extractObject_obj)
  have b: "oend (extractObject strModel startInd)
           = startInd + length (obj (extractObject strModel startInd))"
    using scan_le [of "drop startInd strModel" 0]
    by (simp add: extractObject_fields extractObject_obj)
  have c: "obj (extractObject nested_house 0) = nested_house"
    by (simp add: extractObject_def nested_house_def slice_def)
  show ?thesis using a b c by simp
qed

theorem extractObject_balanced_span_witness:
  "closes (drop 0 nested_house) \<and> first_brace (drop 0 nested_house) = Some (CHR ''{'')
   \<and> balanced_span (obj (extractObject nested_house 0))
   \<and> obj (extractObject nested_house 0) = nested_house
   \<and> oend (extractObject nested_house 0) = 53"
proof -
  have c: "closes (drop 0 nested_house)"
    by (simp add: closes_scan closing_def nested_house_def depth_def brace_step_def)
  have f: "first_brace (drop 0 nested_house) = Some (CHR ''{'')"
    by (simp add: first_brace_def nested_house_def)
  have l: "length nested_house = 53" by (simp add: nested_house_def)
  have "oend (extractObject nested_house 0) = 53"
    using extractObject_balanced_span [OF c f] l by simp
  with extractObject_balanced_span [OF c f] c f show ?thesis by blast
qed

text \<open>
  Without the condition on the first brace the property fails: the counter goes to
  \<open>-1\<close> on a leading closing brace, and the scan still ends at a later one.
\<close>

theorem extractObject_negative_prefix_counterexample:
  "obj (extractObject ''}{{}'' 0) = ''}{{}'' \<and> \<not> balanced_span (obj (extractObject ''}{{}'' 0))"
proof -
  have o: "obj (extractObject ''}{{}'' 0) = ''}{{}''"
    by (simp add: extractObject_def slice_def)
  have "depth (take 1 ''}{{}'') < 0" by (simp add: depth_def brace_step_def)
  then have "\<not> balanced_span ''}{{}''"
    unfolding balanced_span_def by (metis One_nat_def Suc_leI length_greater_0_conv list.distinct(1) not_le)
  with o show ?thesis by simp
qed

text \<open>
  Claim C2, as amended. \<^verbatim>\<open>extractObject\<close> has no error path: when the scan never
  closes, the loop runs to the end of the buffer and the rest of the model, from
  \<open>startInd\<close> on, is returned as the object.
\<close>

theorem extractObject_unclosed_returns_rest:
  assumes "\<not> closes (drop startInd strModel)"
  shows "extractObject strModel startInd
       = \<lparr>ostart = startInd, oend = startInd + length (drop startInd strModel),
          obj = drop startInd strModel\<rparr>"
proof -
  from assms have "\<forall>k < length (drop startInd strModel). \<not> closing 0 (drop startInd strModel) k"
    by (simp add: closes_closing)
  then have "scan (drop startInd strModel) 0 0 = length (drop startInd strModel)"
    by (rule scan_open)
  then have "scan (drop startInd strModel) startInd 0 = startInd + length (drop startInd strModel)"
    using scan_shift [of "drop startInd strModel" startInd 0] by simp
  then show ?thesis by (simp add: extractObject_def slice_def drop_take)
qed

theorem extractObject_unclosed_returns_rest_witness:
  "\<not> closes (drop 0 ''object a { b'')
   \<and> extractObject ''object a { b'' 0 = \<lparr>ostart = 0, oend = 12, obj = ''object a { b''\<rparr>"
proof -
  have n: "\<not> closes (drop 0 ''object a { b'')"
    by (simp add: closes_scan closing_def depth_def brace_step_def)
  from extractObject_unclosed_returns_rest [OF n] n show ?thesis by simp
qed

text \<open>An unclosed block: a span is returned, nothing is raised.\<close>

theorem extractObject_unclosed_counterexample:
  "\<not> closes (drop 7 ''module powerflow {'')
   \<and> extractObject ''module powerflow {'' 7
       = \<lparr>ostart = 7, oend = 18, obj = ''powerflow {''\<rparr>"
  by (simp add: closes_scan closing_def depth_def brace_step_def extractObject_def slice_def)

section \<open>Searching\<close>


lemma search_Some:
  "search r s pos = Some (a, e) \<Longrightarrow>
     pos \<le> a \<and> a \<le> length s \<and> (\<exists>es. ends r s a = e # es) \<and> (\<forall>i. pos \<le> i \<and> i < a \<longrightarrow> ends r s i = [])"
proof (induction r s pos rule: search.induct)
  case (1 r s pos)
  show ?case
  proof (cases "ends r s pos")
    case (Cons x xs)
    with "1.prems" show ?thesis by (auto simp: search.simps [of r s pos] split: if_splits)
  next
    case Nil
    with "1.prems" have le: "\<not> length s < pos" and rec: "search r s (Suc pos) = Some (a, e)"
      by (auto simp: search.simps [of r s pos] split: if_splits)
    from "1.IH" [OF le Nil rec] have ih: "Suc pos \<le> a" "a \<le> length s" "\<exists>es. ends r s a = e # es"
      "\<And>i. Suc pos \<le> i \<Longrightarrow> i < a \<Longrightarrow> ends r s i = []" by auto
    have "ends r s i = []" if "pos \<le> i" "i < a" for i
    proof (cases "i = pos")
      case True with Nil show ?thesis by simp
    next
      case False with that ih(4) [of i] show ?thesis by simp
    qed
    with ih show ?thesis by auto
  qed
qed

lemma search_None:
  "search r s pos = None \<longleftrightarrow> (\<forall>i. pos \<le> i \<and> i \<le> length s \<longrightarrow> ends r s i = [])"
proof (induction r s pos rule: search.induct)
  case (1 r s pos)
  show ?case
  proof (cases "length s < pos")
    case True then show ?thesis by (auto simp: search.simps [of r s pos])
  next
    case False
    show ?thesis
    proof (cases "ends r s pos")
      case (Cons x xs)
      with False show ?thesis by (auto simp: search.simps [of r s pos])
    next
      case Nil
      have "(\<forall>i. pos \<le> i \<and> i \<le> length s \<longrightarrow> ends r s i = [])
          \<longleftrightarrow> (\<forall>i. Suc pos \<le> i \<and> i \<le> length s \<longrightarrow> ends r s i = [])"
        using Nil by (metis Suc_leI le_neq_implies_less Suc_leD)
      with "1.IH" [OF False Nil] False Nil show ?thesis
        by (simp add: search.simps [of r s pos])
    qed
  qed
qed

lemma search_first:
  assumes "pos \<le> a" "a \<le> length s" "ends r s a = e # es" "\<forall>i. pos \<le> i \<and> i < a \<longrightarrow> ends r s i = []"
  shows "search r s pos = Some (a, e)"
proof (cases "search r s pos")
  case None
  with assms show ?thesis by (auto simp: search_None)
next
  case (Some ae)
  obtain a' e' where ae: "ae = (a', e')" by (cases ae)
  from search_Some [OF Some [unfolded ae]] have
    a': "pos \<le> a'" "a' \<le> length s" "\<exists>es. ends r s a' = e' # es" "\<forall>i. pos \<le> i \<and> i < a' \<longrightarrow> ends r s i = []"
    by auto
  have "a' = a"
  proof (rule ccontr)
    assume "a' \<noteq> a"
    then consider "a' < a" | "a < a'" by arith
    then show False
    proof cases
      case 1 with assms(4) a'(1,3) show False by auto
    next
      case 2 with a'(4) assms(1,3) show False by auto
    qed
  qed
  with a'(3) assms(3) Some ae show ?thesis by auto
qed

text \<open>Ends of the pattern parts of a property search.\<close>

lemma ends_Ahead_Lit1: "e \<in> set (ends (Ahead (Lit [c])) s j) \<Longrightarrow> e = j \<and> j < length s \<and> s ! j = c"
proof -
  assume a: "e \<in> set (ends (Ahead (Lit [c])) s j)"
  then have t: "take (Suc 0) (drop j s) = [c]" and e: "e = j" by (auto split: if_splits)
  then have "drop j s \<noteq> []" by auto
  then have j: "j < length s" by simp
  then have "drop j s = s ! j # drop (Suc j) s" by (simp add: Cons_nth_drop_Suc)
  with t have "s ! j = c" by simp
  with e j show ?thesis by simp
qed

lemma ends_prop_regex: "ends (prop_regex p) s i = (if occurs_at p s i then ends prop_tail s i else [])"
proof -
  have "ends (Behind (Seq WordB (Seq (Lit p) WordB))) s i = (if occurs_at p s i then [i] else [])"
    by (auto simp: occurs_at_def)
  then show ?thesis
    unfolding prop_regex_def prop_tail_def [symmetric] ends.simps(9) by simp
qed

lemma first_concat:
  "concat (map f xs) = e # es \<Longrightarrow>
     \<exists>n < length xs. (\<forall>m < n. f (xs ! m) = []) \<and> (\<exists>r. f (xs ! n) = e # r)"
proof (induction xs)
  case Nil then show ?case by simp
next
  case (Cons x xs)
  show ?case
  proof (cases "f x")
    case Nil
    with Cons.prems have "concat (map f xs) = e # es" by simp
    from Cons.IH [OF this] obtain n where n: "n < length xs" "\<forall>m < n. f (xs ! m) = []" "\<exists>r. f (xs ! n) = e # r"
      by auto
    have "\<forall>m < Suc n. f ((x # xs) ! m) = []"
    proof (intro allI impI)
      fix m assume "m < Suc n"
      then show "f ((x # xs) ! m) = []" using Nil n(2) by (cases m) auto
    qed
    with n show ?thesis by (intro exI [of _ "Suc n"]) auto
  next
    case (Cons y ys)
    with Cons.prems show ?thesis by (intro exI [of _ 0]) auto
  qed
qed

lemma run_Space_nth: "j < run Space cs \<Longrightarrow> is_space (cs ! j)"
  unfolding run_def
  using nth_mem [of j "takeWhile (in_class Space) cs"] set_takeWhileD [of _ "in_class Space" cs]
  by (metis in_class.simps(1) takeWhile_nth)

lemma run_le: "run k cs \<le> length cs"
  by (simp add: run_def length_takeWhile_le)

lemma semicolon_not_space: "\<not> is_space CHR '';''"
  by (simp add: is_space_def)

lemma ends_Ahead_Lit1_Nil: "ends (Ahead (Lit [c])) s j = [] \<longleftrightarrow> \<not> (j < length s \<and> s ! j = c)"
proof (cases "j < length s")
  case True
  then have "drop j s = s ! j # drop (Suc j) s" by (simp add: Cons_nth_drop_Suc)
  then show ?thesis using True by simp
next
  case False then show ?thesis by simp
qed

lemma ends_lazy_semi:
  assumes "ends (Seq (LazyStar AnyChar) (Ahead (Lit '';''))) s j = e # es"
  shows "j \<le> e \<and> e < length s \<and> s ! e = CHR '';'' \<and> (\<forall>m. j \<le> m \<and> m < e \<longrightarrow> s ! m \<noteq> CHR '';'')"
proof -
  let ?xs = "[j ..< Suc (j + run AnyChar (drop j s))]"
  from assms have "concat (map (ends (Ahead (Lit '';'')) s) ?xs) = e # es" by simp
  from first_concat [OF this] obtain n where n: "n < length ?xs"
     "\<forall>m < n. ends (Ahead (Lit '';'')) s (?xs ! m) = []"
     "\<exists>r. ends (Ahead (Lit '';'')) s (?xs ! n) = e # r" by blast
  from n(1) have xn: "?xs ! n = j + n" by (simp del: upt_Suc)
  from n(3) obtain r where "ends (Ahead (Lit '';'')) s (?xs ! n) = e # r" by blast
  then have "ends (Ahead (Lit '';'')) s (j + n) = e # r" by (simp only: xn)
  then have "e \<in> set (ends (Ahead (Lit '';'')) s (j + n))" by (simp only: list.set_intros)
  from ends_Ahead_Lit1 [OF this] have e: "e = j + n" "e < length s" "s ! e = CHR '';''" by auto
  have "s ! m \<noteq> CHR '';''" if "j \<le> m" "m < e" for m
  proof -
    from that e have mn: "m - j < n" by arith
    with n(1) have "?xs ! (m - j) = m" using that by (simp del: upt_Suc)
    with n(2) mn have "ends (Ahead (Lit '';'')) s m = []" by metis
    then have "\<not> (m < length s \<and> s ! m = CHR '';'')" by (simp add: ends_Ahead_Lit1_Nil del: ends.simps)
    then show ?thesis using that e by simp
  qed
  with e show ?thesis by auto
qed

lemma ends_prop_tail:
  assumes "ends prop_tail s i = e # es"
  shows "i < e \<and> e < length s \<and> s ! e = CHR '';'' \<and> is_space (s ! i)
         \<and> (\<forall>m. i \<le> m \<and> m < e \<longrightarrow> s ! m \<noteq> CHR '';'')"
proof -
  let ?w = "run Space (drop i s)"
  let ?xs = "rev [Suc i ..< Suc (i + ?w)]"
  let ?f = "ends (Seq (LazyStar AnyChar) (Ahead (Lit '';''))) s"
  from assms have "concat (map ?f ?xs) = e # es" by (simp add: prop_tail_def del: upt_Suc)
  from first_concat [OF this] obtain n where n: "n < length ?xs" "\<exists>r. ?f (?xs ! n) = e # r" by blast
  from n(1) have nw: "n < ?w" by (simp del: upt_Suc)
  then have xn: "?xs ! n = i + ?w - n" by (simp add: rev_nth del: upt_Suc)
  from n(2) obtain r where "?f (?xs ! n) = e # r" by blast
  then have "?f (i + ?w - n) = e # r" by (simp only: xn)
  from ends_lazy_semi [OF this] have e: "i + ?w - n \<le> e" "e < length s" "s ! e = CHR '';''"
     "\<And>m. i + ?w - n \<le> m \<Longrightarrow> m < e \<Longrightarrow> s ! m \<noteq> CHR '';''" by auto
  have sp: "is_space (s ! m)" if "i \<le> m" "m < i + ?w" for m
  proof -
    from that have "m - i < ?w" by arith
    from run_Space_nth [OF this] have "is_space (drop i s ! (m - i))" .
    moreover have "i + (m - i) < length s" using that run_le [of Space "drop i s"] by simp
    ultimately show ?thesis using that by (simp add: nth_drop)
  qed
  have "s ! m \<noteq> CHR '';''" if "i \<le> m" "m < e" for m
  proof (cases "m < i + ?w - n")
    case True
    with that sp [of m] have "is_space (s ! m)" by simp
    then show ?thesis using semicolon_not_space by auto
  next
    case False with e(4) [of m] that show ?thesis by simp
  qed
  moreover have "is_space (s ! i)" using sp [of i] nw by simp
  moreover have "i < e" using e(1) nw by arith
  ultimately show ?thesis using e by auto
qed

section \<open>Properties of the property functions\<close>

lemma search_prop_regex:
  assumes "search (prop_regex p) s pos = Some (a, b)"
  shows "occurs_at p s a \<and> a < b \<and> b < length s \<and> s ! b = CHR '';'' \<and> is_space (s ! a)
         \<and> (\<forall>m. a \<le> m \<and> m < b \<longrightarrow> s ! m \<noteq> CHR '';'')"
proof -
  from search_Some [OF assms] obtain es where es: "ends (prop_regex p) s a = b # es" by blast
  then have occ: "occurs_at p s a" and "ends prop_tail s a = b # es"
    by (auto simp: ends_prop_regex split: if_splits)
  from ends_prop_tail [OF this(2)] occ show ?thesis by simp
qed

text \<open>A faithful reading gives the patterns of a literal name.\<close>

lemma faithful_exp: "faithful re \<Longrightarrow> literal p \<Longrightarrow> reads re p"
  by (simp add: faithful_def reads_def)


lemma between_mid: "between h t (h @ p @ t) = Some p"
  by (simp add: between_def)

lemma re_compile_exp: "literal p \<Longrightarrow> reads re_compile p"
  by (simp add: reads_def re_compile_def exp_def between_mid)

lemma between_exp_name: "between exp_head exp_tail (OBJY_BY_NAME p) = None"
  by (simp add: between_def OBJY_BY_NAME_def name_head_def exp_head_def)

lemma re_compile_name: "literal p \<Longrightarrow> re_compile (OBJY_BY_NAME p) = Inr (name_regex p)"
  by (simp add: re_compile_def between_exp_name) (simp add: OBJY_BY_NAME_def between_mid)

lemma faithful_re_compile: "faithful re_compile"
  using re_compile_exp by (simp add: faithful_def re_compile_name reads_def)

lemma word_literal: "\<forall>c \<in> set k. is_word c \<Longrightarrow> literal k"
  by (auto simp: literal_def special_def is_word_def)

lemma extractProperties_single:
  assumes "reads re p"
  shows "extractProperties re s [p] =
     (case search (prop_regex p) s 0 of
        None \<Rightarrow> Inl (PropNotInObjError s p)
      | Some (a, b) \<Rightarrow> Inr [p \<mapsto> \<lparr>pprop = propStr (slice s a b), pstart = a, pend = b\<rparr>])"
  using assms by (simp add: extractProperties_def reads_def split: option.splits)

lemma modObjProps_Cons:
  assumes "reads re p"
  shows "modObjProps re s ((p, v) # rest) =
     (case search (prop_regex p) s 0 of
        None \<Rightarrow> (if s = [] then Inl IndexError
                 else modObjProps re (butlast s @ ''  '' @ p @ '' '' @ str v @ '';'' @ [CHR 0x0A]
                                      @ [last s]) rest)
      | Some (a, b) \<Rightarrow> modObjProps re (take a s @ '' '' @ str v @ drop b s) rest)"
  by (simp add: extractProperties_single [OF assms] split: option.splits)

text \<open>
  Claim C10, as amended. When the keys of the property dictionary are literal (none
  of their characters is special in a pattern), an object text that ends with the
  closing brace still ends with it after \<^verbatim>\<open>modObjProps\<close>: a replacement ends before
  the semicolon of its statement, and a new statement goes in front of the last
  character. No error is raised on such a text.
\<close>

theorem modObjProps_keeps_closing_brace:
  assumes "faithful re" and "\<forall>kv \<in> set propDict. literal (fst kv)"
    and "objStr \<noteq> []" and "last objStr = CHR ''}''"
  shows "\<exists>r. modObjProps re objStr propDict = Inr r \<and> r \<noteq> [] \<and> last r = CHR ''}''"
  using assms(2-)
proof (induction propDict arbitrary: objStr)
  case Nil then show ?case by simp
next
  case (Cons kv rest)
  obtain p v where kv: "kv = (p, v)" by (cases kv)
  have rd: "reads re p"
    using assms(1) Cons.prems(1) kv by (simp add: faithful_exp)
  have lr: "\<forall>kv \<in> set rest. literal (fst kv)" using Cons.prems(1) by simp
  show ?case
  proof (cases "search (prop_regex p) objStr 0")
    case None
    let ?s = "butlast objStr @ ''  '' @ p @ '' '' @ str v @ '';'' @ [CHR 0x0A] @ [last objStr]"
    have "?s \<noteq> []" "last ?s = CHR ''}''" using Cons.prems by simp_all
    from Cons.IH [OF lr this] show ?thesis using None Cons.prems kv
      by (simp add: modObjProps_Cons [OF rd] del: modObjProps.simps)
  next
    case (Some ab)
    obtain a b where ab: "ab = (a, b)" by (cases ab)
    from search_prop_regex [OF Some [unfolded ab]] have b: "b < length objStr" by simp
    let ?s = "take a objStr @ '' '' @ str v @ drop b objStr"
    have "?s \<noteq> []" "last ?s = CHR ''}''" using Cons.prems b by simp_all
    from Cons.IH [OF lr this] show ?thesis using Some ab kv
      by (simp add: modObjProps_Cons [OF rd] del: modObjProps.simps)
  qed
qed

text \<open>
  The regulator object, with one property that is replaced and one that is added.
\<close>

theorem modObjProps_keeps_closing_brace_witness:
  "\<exists>r. modObjProps re_compile regulator_obj [(''tap_A'', PInt 10), (''Control'', PStr ''MANUAL'')] = Inr r
        \<and> r \<noteq> [] \<and> last r = CHR ''}''"
proof -
  have h: "regulator_obj \<noteq> []" "last regulator_obj = CHR ''}''"
    by (simp_all add: regulator_obj_def)
  have l: "\<forall>kv \<in> set [(''tap_A'', PInt 10), (''Control'', PStr ''MANUAL'')]. literal (fst kv)"
    by (simp add: literal_def special_def)
  from modObjProps_keeps_closing_brace [OF faithful_re_compile l h] show ?thesis .
qed

text \<open>
  A key is pasted into the pattern as it is. With the key \<^verbatim>\<open>x)}|(y\<close> the pattern has
  the alternative \<^verbatim>\<open>(?<=\bx)}\<close>, which matches the closing brace of \<^verbatim>\<open>x}\<close>, and the
  brace is replaced by the value; with the key \<^verbatim>\<open>(\<close> the text is not a pattern,
  and \<^verbatim>\<open>re.error\<close> is raised.
\<close>

theorem modObjProps_closing_brace_counterexample:
  "last ''x}'' = CHR ''}''
   \<and> modObjProps re_compile ''x}'' [(''x)}|(y'', PStr ''v'')] = Inr ''x v''
   \<and> modObjProps re_compile ''x}'' [(''('', PStr ''v'')] = Inl ReError"
  by code_simp

lemma extractProperties_loop_char:
  assumes "\<forall>p \<in> set props. reads re p"
  shows "extractProperties_loop re s props d =
     (case List.find (\<lambda>p. entry_of s p = None) props of
        Some p \<Rightarrow> Inl (PropNotInObjError s p)
      | None \<Rightarrow> Inr (\<lambda>p. if p \<in> set props then entry_of s p else d p))"
  using assms
proof (induction props arbitrary: d)
  case Nil show ?case by simp
next
  case (Cons p ps)
  have rd: "reads re p" using Cons.prems by simp
  have rs: "\<forall>p \<in> set ps. reads re p" using Cons.prems by simp
  show ?case
  proof (cases "search (prop_regex p) s 0")
    case None then show ?thesis using rd by (simp add: entry_of_def reads_def)
  next
    case (Some ab)
    obtain a b where ab: "ab = (a, b)" by (cases ab)
    let ?e = "\<lparr>pprop = propStr (slice s a b), pstart = a, pend = b\<rparr>"
    have e: "entry_of s p = Some ?e" using Some ab by (simp add: entry_of_def)
    have eq: "(\<lambda>q. if q \<in> set ps then entry_of s q else (d(p \<mapsto> ?e)) q)
        = (\<lambda>q. if q \<in> set (p # ps) then entry_of s q else d q)"
      using e by (auto simp: fun_eq_iff)
    have step: "extractProperties_loop re s (p # ps) d = extractProperties_loop re s ps (d(p \<mapsto> ?e))"
      using Some ab rd by (simp add: reads_def)
    have fnd: "List.find (\<lambda>p. entry_of s p = None) (p # ps) = List.find (\<lambda>p. entry_of s p = None) ps"
      using e by simp
    show ?thesis by (simp only: step fnd Cons.IH [OF rs] eq)
  qed
qed

text \<open>
  Claim C4, as amended. For property names that are literal (none of their
  characters is special in a pattern), \<^verbatim>\<open>extractProperties\<close> is all-or-nothing over
  the list of names: the first requested name, in list order, that the object text
  does not have raises \<^verbatim>\<open>PropNotInObjError\<close> for that name and no dictionary is
  returned; when every name is present the dictionary has an entry for each of them,
  the one a search for that name alone gives.
\<close>

theorem extractProperties_all_or_nothing:
  assumes "faithful re" and "\<forall>p \<in> set props. literal p"
  shows "extractProperties re objString props =
     (case List.find (\<lambda>p. entry_of objString p = None) props of
        Some p \<Rightarrow> Inl (PropNotInObjError objString p)
      | None \<Rightarrow> Inr (\<lambda>p. if p \<in> set props then entry_of objString p else None))"
proof -
  have "\<forall>p \<in> set props. reads re p"
    using assms by (simp add: faithful_exp)
  then show ?thesis by (simp add: extractProperties_def extractProperties_loop_char)
qed

text \<open>
  The regulator object has \<open>name\<close> and \<open>tap_A\<close>, and no \<open>phases\<close>: asked for the three,
  \<^verbatim>\<open>extractProperties\<close> raises for \<open>phases\<close>.
\<close>

theorem extractProperties_all_or_nothing_witness:
  "extractProperties re_compile regulator_obj [''name'', ''phases'', ''tap_A'']
     = Inl (PropNotInObjError regulator_obj ''phases'')"
proof -
  have l: "\<forall>p \<in> set [''name'', ''phases'', ''tap_A'']. literal p"
    by (simp add: literal_def special_def)
  have 1: "entry_of regulator_obj ''name'' \<noteq> None" by code_simp
  have 2: "entry_of regulator_obj ''phases'' = None" by code_simp
  show ?thesis
    using extractProperties_all_or_nothing [OF faithful_re_compile l, of regulator_obj] 1 2
    by simp
qed

text \<open>
  The name of the object resolves when asked for alone, and is lost when it is asked
  for together with a property that the object does not have.
\<close>

theorem extractProperties_batch_counterexample:
  "extractProperties re_compile ''object x { name a; }'' [''name'']
     = Inr [''name'' \<mapsto> \<lparr>pprop = ''a'', pstart = 15, pend = 17\<rparr>]
   \<and> extractProperties re_compile ''object x { name a; }'' [''name'', ''phases'']
     = Inl (PropNotInObjError ''object x { name a; }'' ''phases'')"
proof -
  have 1: "search (prop_regex ''name'') ''object x { name a; }'' 0 = Some (15, 17)" by code_simp
  have 2: "search (prop_regex ''phases'') ''object x { name a; }'' 0 = None" by code_simp
  have 3: "propStr (slice ''object x { name a; }'' 15 17) = ''a''" by code_simp
  have 4: "re_compile (exp ''name'') = Inr (prop_regex ''name'')"
    "re_compile (exp ''phases'') = Inr (prop_regex ''phases'')"
    using re_compile_exp [of "''name''"] re_compile_exp [of "''phases''"]
    by (simp_all add: reads_def literal_def special_def)
  show ?thesis using 1 2 3 4 by (simp add: extractProperties_def)
qed

text \<open>
  Claim C5, as amended. For property names that are literal, and for every property
  that \<^verbatim>\<open>extractProperties\<close> finds, the offsets \<^verbatim>\<open>'start'\<close> and \<^verbatim>\<open>'end'\<close> cover the
  text between the property name and the next semicolon: the name ends just before
  \<^verbatim>\<open>'start'\<close>, the span begins with white space and has no semicolon, and the
  character at \<^verbatim>\<open>'end'\<close> is the semicolon. The value \<^verbatim>\<open>'prop'\<close> is the text of the
  span without the white space at its ends and then without any double quotes at its
  ends.
\<close>

theorem extractProperties_span:
  assumes "faithful re" and "\<forall>q \<in> set props. literal q"
    and "extractProperties re objString props = Inr d" and "p \<in> set props"
  shows "\<exists>e. d p = Some e
     \<and> length p \<le> pstart e \<and> slice objString (pstart e - length p) (pstart e) = p
     \<and> is_space (objString ! pstart e)
     \<and> pstart e < pend e \<and> pend e < length objString \<and> objString ! pend e = CHR '';''
     \<and> (\<forall>m. pstart e \<le> m \<and> m < pend e \<longrightarrow> objString ! m \<noteq> CHR '';'')
     \<and> pprop e = strip (\<lambda>c. c = CHR ''\"'')
                    (strip is_space (slice objString (pstart e) (pend e)))"
proof -
  have rd: "\<forall>p \<in> set props. reads re p"
    using assms(1,2) by (simp add: faithful_exp)
  have ch: "extractProperties re objString props =
     (case List.find (\<lambda>p. entry_of objString p = None) props of
        Some p \<Rightarrow> Inl (PropNotInObjError objString p)
      | None \<Rightarrow> Inr (\<lambda>p. if p \<in> set props then entry_of objString p else None))"
    using rd by (simp add: extractProperties_def extractProperties_loop_char)
  from assms(3) have f: "List.find (\<lambda>p. entry_of objString p = None) props = None"
    and d: "d = (\<lambda>p. if p \<in> set props then entry_of objString p else None)"
    by (auto simp: ch split: option.splits)
  from f assms(4) have "entry_of objString p \<noteq> None" by (auto simp: find_None_iff)
  then obtain a b where s: "search (prop_regex p) objString 0 = Some (a, b)"
    by (auto simp: entry_of_def split: option.splits)
  let ?e = "\<lparr>pprop = propStr (slice objString a b), pstart = a, pend = b\<rparr>"
  have dp: "d p = Some ?e" using d assms(4) s by (simp add: entry_of_def)
  from search_prop_regex [OF s] have facts: "occurs_at p objString a" "a < b" "b < length objString"
    "objString ! b = CHR '';''" "is_space (objString ! a)"
    "\<forall>m. a \<le> m \<and> m < b \<longrightarrow> objString ! m \<noteq> CHR '';''" by auto
  from facts(1) have lp: "length p \<le> a" and tk: "take (length p) (drop (a - length p) objString) = p"
    by (auto simp: occurs_at_def)
  have "slice objString (a - length p) a = p" using lp tk by (simp add: slice_def drop_take)
  with dp lp facts show ?thesis by (simp add: propStr_def)
qed

text \<open>
  The \<open>tap_A\<close> property of the regulator object.
\<close>

theorem extractProperties_span_witness:
  "\<exists>d e. extractProperties re_compile regulator_obj [''name'', ''tap_A''] = Inr d \<and> d ''tap_A'' = Some e
        \<and> pstart e = 37 \<and> pend e = 39 \<and> pprop e = ''5''
        \<and> slice regulator_obj (pstart e - length ''tap_A'') (pstart e) = ''tap_A''
        \<and> regulator_obj ! pend e = CHR '';''"
proof -
  have 1: "search (prop_regex ''name'') regulator_obj 0 = Some (24, 29)" by code_simp
  have 2: "search (prop_regex ''tap_A'') regulator_obj 0 = Some (37, 39)" by code_simp
  have 3: "propStr (slice regulator_obj 37 39) = ''5''" by code_simp
  have 4: "re_compile (exp ''name'') = Inr (prop_regex ''name'')"
    "re_compile (exp ''tap_A'') = Inr (prop_regex ''tap_A'')"
    using re_compile_exp [of "''name''"] re_compile_exp [of "''tap_A''"]
    by (simp_all add: reads_def literal_def special_def)
  obtain d where d: "extractProperties re_compile regulator_obj [''name'', ''tap_A''] = Inr d"
    and dt: "d ''tap_A'' = Some \<lparr>pprop = ''5'', pstart = 37, pend = 39\<rparr>"
    using 1 2 3 4 by (simp add: extractProperties_def)
  have m: "''tap_A'' \<in> set [''name'', ''tap_A'']" by simp
  have l: "\<forall>q \<in> set [''name'', ''tap_A'']. literal q" by (simp add: literal_def special_def)
  from extractProperties_span [OF faithful_re_compile l d m] dt d show ?thesis by auto
qed

text \<open>
  A value in two layers of quotes: the span starts after the name \<open>v\<close> (offset 5,
  the name is at offset 4) and ends before the semicolon (offset 11), and both layers
  of quotes are gone from the value.
\<close>

theorem extractProperties_offsets_counterexample:
  "extractProperties re_compile ''a { v \"\"x\"\"; }'' [''v'']
     = Inr [''v'' \<mapsto> \<lparr>pprop = ''x'', pstart = 5, pend = 11\<rparr>]
   \<and> ''a { v \"\"x\"\"; }'' ! 4 = CHR ''v'' \<and> ''a { v \"\"x\"\"; }'' ! 11 = CHR '';''
   \<and> slice ''a { v \"\"x\"\"; }'' 5 11 = '' \"\"x\"\"''"
proof -
  have 1: "search (prop_regex ''v'') ''a { v \"\"x\"\"; }'' 0 = Some (5, 11)" by code_simp
  have 2: "propStr (slice ''a { v \"\"x\"\"; }'' 5 11) = ''x''" by code_simp
  have 3: "slice ''a { v \"\"x\"\"; }'' 5 11 = '' \"\"x\"\"''" by code_simp
  have 4: "re_compile (exp ''v'') = Inr (prop_regex ''v'')"
    using re_compile_exp [of "''v''"] by (simp add: reads_def literal_def special_def)
  show ?thesis using 1 2 3 4 by (simp add: extractProperties_def)
qed

section \<open>Matches of the property pattern\<close>

lemma run_AnyChar_ge:
  assumes "\<forall>m < n. m < length cs \<and> cs ! m \<noteq> CHR 0x0A" 
  shows "n \<le> run AnyChar cs"
proof (rule ccontr)
  assume "\<not> n \<le> run AnyChar cs"
  then have lt: "length (takeWhile (in_class AnyChar) cs) < n" by (simp add: run_def)
  with assms have l: "length (takeWhile (in_class AnyChar) cs) < length cs" by auto
  from nth_length_takeWhile [OF l] have "\<not> in_class AnyChar (cs ! length (takeWhile (in_class AnyChar) cs))" .
  with assms lt show False by auto
qed

lemma concat_map_upt_first:
  assumes "j \<le> e" "e < n" "\<forall>m. j \<le> m \<and> m < e \<longrightarrow> f m = []"
  shows "concat (map f [j ..< n]) = f e @ concat (map f [Suc e ..< n])"
proof -
  have "[j ..< n] = [j ..< e] @ e # [Suc e ..< n]"
  proof -
    have "[j ..< n] = [j ..< e] @ [e ..< n]"
      using assms(1,2) upt_add_eq_append [of j e "n - e"] by simp
    moreover have "[e ..< n] = e # [Suc e ..< n]" using assms(2) by (simp add: upt_conv_Cons)
    ultimately show ?thesis by simp
  qed
  moreover have "concat (map f [j ..< e]) = []" using assms(3) by simp
  ultimately show ?thesis by simp
qed

lemma lazy_semi_hd:
  assumes "j \<le> e" "e < length s" "s ! e = CHR '';''"
      and "\<forall>m. j \<le> m \<and> m < e \<longrightarrow> s ! m \<noteq> CHR '';'' \<and> s ! m \<noteq> CHR 0x0A"
  shows "\<exists>es. ends (Seq (LazyStar AnyChar) (Ahead (Lit '';''))) s j = e # es"
proof -
  let ?d = "run AnyChar (drop j s)"
  have "e - j \<le> ?d"
  proof (rule run_AnyChar_ge, intro allI impI)
    fix m assume "m < e - j"
    with assms show "m < length (drop j s) \<and> drop j s ! m \<noteq> CHR 0x0A" by (simp add: nth_drop)
  qed
  with assms(1) have e: "e < Suc (j + ?d)" by arith
  have none: "\<forall>m. j \<le> m \<and> m < e \<longrightarrow> ends (Ahead (Lit '';'')) s m = []"
    using assms by (simp add: ends_Ahead_Lit1_Nil del: ends.simps)
  have "ends (Ahead (Lit '';'')) s e \<noteq> []" using assms by (simp add: ends_Ahead_Lit1_Nil del: ends.simps)
  then have here: "ends (Ahead (Lit '';'')) s e = [e]" by (simp split: if_splits)
  have "ends (Seq (LazyStar AnyChar) (Ahead (Lit '';''))) s j
       = concat (map (ends (Ahead (Lit '';'')) s) [j ..< Suc (j + ?d)])" by (simp del: upt_Suc)
  also have "\<dots> = ends (Ahead (Lit '';'')) s e @ concat (map (ends (Ahead (Lit '';'')) s) [Suc e ..< Suc (j + ?d)])"
    by (rule concat_map_upt_first [OF assms(1) e none])
  finally show ?thesis using here by simp
qed

lemma run_Space_stop:
  assumes "i \<le> e" "e < length s" "\<not> is_space (s ! e)"
  shows "i + run Space (drop i s) \<le> e"
proof (rule ccontr)
  assume "\<not> i + run Space (drop i s) \<le> e"
  then have "e - i < run Space (drop i s)" using assms(1) by arith
  from run_Space_nth [OF this] have "is_space (drop i s ! (e - i))" .
  with assms show False by (simp add: nth_drop)
qed

lemma run_Space_pos:
  assumes "i < length s" "is_space (s ! i)"
  shows "0 < run Space (drop i s)"
proof -
  have "drop i s = s ! i # drop (Suc i) s" using assms(1) by (simp add: Cons_nth_drop_Suc)
  then show ?thesis using assms(2) by (simp add: run_def)
qed

lemma prop_tail_hd:
  assumes "i < e" "e < length s" "s ! e = CHR '';''" "is_space (s ! i)"
      and "\<forall>m. i \<le> m \<and> m < e \<longrightarrow> s ! m \<noteq> CHR '';'' \<and> s ! m \<noteq> CHR 0x0A"
  shows "\<exists>es. ends prop_tail s i = e # es"
proof -
  let ?w = "run Space (drop i s)"
  have w0: "0 < ?w" using assms by (intro run_Space_pos) auto
  have we: "i + ?w \<le> e" using assms semicolon_not_space by (intro run_Space_stop) auto
  have "\<forall>m. i + ?w \<le> m \<and> m < e \<longrightarrow> s ! m \<noteq> CHR '';'' \<and> s ! m \<noteq> CHR 0x0A"
    using assms(5) by auto
  from lazy_semi_hd [OF we assms(2,3) this] obtain es where
    es: "ends (Seq (LazyStar AnyChar) (Ahead (Lit '';''))) s (i + ?w) = e # es" by blast
  have "rev [Suc i ..< Suc (i + ?w)] = (i + ?w) # rev [Suc i ..< i + ?w]"
    using w0 by simp
  then have "ends prop_tail s i = ends (Seq (LazyStar AnyChar) (Ahead (Lit '';''))) s (i + ?w)
        @ concat (map (ends (Seq (LazyStar AnyChar) (Ahead (Lit '';''))) s) (rev [Suc i ..< i + ?w]))"
    unfolding prop_tail_def ends.simps(9) [of "Plus Space"] ends.simps(4) by simp
  with es show ?thesis by simp
qed

lemma word_at_take: "j < n \<Longrightarrow> word_at (take n s) j = word_at s j"
  by (auto simp: word_at_def)

lemma word_at_prefix:
  assumes "take n s1 = take n s2" "j < n"
  shows "word_at s1 j = word_at s2 j"
  using word_at_take [OF assms(2), of s1] word_at_take [OF assms(2), of s2] assms(1) by simp

lemma boundary_cong:
  assumes "take n s1 = take n s2" "word_at s1 n = word_at s2 n" "i \<le> n"
  shows "boundary s1 i = boundary s2 i"
proof -
  have a: "word_at s1 i = word_at s2 i"
    using assms word_at_prefix [of n s1 s2 i] by (cases "i = n") auto
  have b: "0 < i \<Longrightarrow> word_at s1 (i - 1) = word_at s2 (i - 1)"
    using assms word_at_prefix [of n s1 s2 "i - 1"] by auto
  show ?thesis unfolding boundary_def using a b by auto
qed

lemma occurs_at_cong:
  assumes "take n s1 = take n s2" "word_at s1 n = word_at s2 n" "i \<le> n"
  shows "occurs_at k s1 i = occurs_at k s2 i"
proof (cases "length k \<le> i")
  case False then show ?thesis by (simp add: occurs_at_def)
next
  case True
  have b1: "boundary s1 i = boundary s2 i" by (rule boundary_cong [OF assms])
  have b2: "boundary s1 (i - length k) = boundary s2 (i - length k)"
    using assms by (intro boundary_cong [OF assms(1,2)]) simp
  have t: "\<And>s. take (length k) (drop (i - length k) s) = drop (i - length k) (take i (take n s))"
    using True assms(3) by (simp add: drop_take min_def)
  show ?thesis unfolding occurs_at_def t b1 b2 assms(1) ..
qed

lemma occurs_at_window:
  assumes "occurs_at k s i" "i - length k \<le> m" "m < i"
  shows "m < length s \<and> s ! m \<in> set k"
proof -
  from assms(1) have le: "length k \<le> i" and tk: "take (length k) (drop (i - length k) s) = k"
    by (auto simp: occurs_at_def)
  from tk have "length (take (length k) (drop (i - length k) s)) = length k" by simp
  then have len: "i \<le> length s" using le assms(2,3) by (simp add: min_def split: if_splits)
  let ?t = "m - (i - length k)"
  have t: "?t < length k" using assms(2,3) le by arith
  have "k ! ?t = take (length k) (drop (i - length k) s) ! ?t" using tk by simp
  also have "\<dots> = s ! m" using t len assms(2) le by (simp add: nth_drop)
  finally have "s ! m = k ! ?t" by simp
  with t len assms(3) show ?thesis by (auto simp: in_set_conv_nth)
qed

lemma occurs_at_intro:
  assumes "k \<noteq> []" "\<forall>c \<in> set k. is_word c"
      and "X = [] \<or> \<not> is_word (last X)" "R = [] \<or> \<not> is_word (hd R)"
  shows "occurs_at k (X @ k @ R) (length X + length k)"
proof -
  let ?s = "X @ k @ R"
  have w1: "word_at ?s (length X)" 
    using assms(1,2) by (cases k) (auto simp: word_at_def nth_append)
  have w2: "0 < length X \<Longrightarrow> \<not> word_at ?s (length X - 1)"
    using assms(3) by (auto simp: word_at_def nth_append last_conv_nth)
  have w3: "word_at ?s (length X + length k - 1)"
  proof -
    have "0 < length k" using assms(1) by simp
    then have "\<not> length X + length k - 1 < length X" "length X + length k - 1 - length X = length k - 1"
      "length k - 1 < length k" by arith+
    then have "?s ! (length X + length k - 1) = last k"
      using assms(1) by (simp add: nth_append last_conv_nth)
    moreover have "length X + length k - 1 < length ?s" using \<open>0 < length k\<close> by (simp, arith)
    ultimately show ?thesis using assms(1,2) by (simp add: word_at_def del: length_append)
  qed
  have w4: "\<not> word_at ?s (length X + length k)"
    using assms(4) by (cases R) (auto simp: word_at_def nth_append)
  have "boundary ?s (length X)" unfolding boundary_def using w1 w2 by auto
  moreover have "boundary ?s (length X + length k)" unfolding boundary_def using w3 w4 assms(1) by auto
  ultimately show ?thesis by (simp add: occurs_at_def)
qed

lemma space_not_word: "\<not> is_word CHR '' ''"
  by (simp add: is_word_def)

lemma space_is_space: "is_space CHR '' ''"
  by (simp add: is_space_def)

lemma search_after_append:
  assumes k: "k \<noteq> []" "\<forall>c \<in> set k. is_word c"
      and ob: "s \<noteq> []" "\<not> is_word (last s)"
      and noocc: "\<forall>i. \<not> occurs_at k s i"
      and v: "\<forall>c \<in> set v. c \<noteq> CHR '';'' \<and> c \<noteq> CHR 0x0A"
  shows "search (prop_regex k) (butlast s @ ''  '' @ k @ '' '' @ v @ '';'' @ [CHR 0x0A] @ [last s]) 0
         = Some (length s + 1 + length k, length s + 2 + length k + length v)"
proof -
  let ?n = "length s - 1"
  let ?X = "butlast s @ ''  ''"
  let ?R = "'' '' @ v @ '';'' @ [CHR 0x0A] @ [last s]"
  let ?s' = "butlast s @ ''  '' @ k @ '' '' @ v @ '';'' @ [CHR 0x0A] @ [last s]"
  let ?p = "length s + 1 + length k"
  let ?e = "length s + 2 + length k + length v"
  have n: "length (butlast s) = ?n" "Suc ?n = length s" using ob(1) by simp_all
  have s'1: "?s' = ?X @ k @ ?R" by simp
  have pX: "?p = length ?X + length k" using n by simp
  have occ: "occurs_at k ?s' ?p"
    unfolding s'1 pX by (rule occurs_at_intro [OF k]) (simp_all add: space_not_word)
  have s'2: "?s' = (?X @ k) @ ('' '' @ v) @ ('';'' @ [CHR 0x0A] @ [last s])" by simp
  have lXk: "length (?X @ k) = ?p" using n by simp
  have nth_mid: "?s' ! m = ('' '' @ v) ! (m - ?p)" if "?p \<le> m" "m < ?e" for m
  proof -
    have "m - ?p < length ('' '' @ v)" using that by simp
    then show ?thesis unfolding s'2 using that lXk
      by (simp only: nth_append) (simp add: nth_append)
  qed
  have nth_e: "?s' ! ?e = CHR '';''"
  proof -
    have "?e = length ((?X @ k) @ ('' '' @ v))" using n by simp
    then show ?thesis unfolding s'2 by (metis append.assoc append_Cons nth_append_length)
  qed
  have len: "?e < length ?s'" using n by simp
  have mid: "\<forall>m. ?p \<le> m \<and> m < ?e \<longrightarrow> ?s' ! m \<noteq> CHR '';'' \<and> ?s' ! m \<noteq> CHR 0x0A"
  proof (intro allI impI)
    fix m assume a: "?p \<le> m \<and> m < ?e"
    then have eq: "?s' ! m = ('' '' @ v) ! (m - ?p)" using nth_mid by simp
    define c where "c = ('' '' @ v) ! (m - ?p)"
    have "m - ?p < length ('' '' @ v)" using a by auto
    then have "c \<in> set ('' '' @ v)" unfolding c_def by (rule nth_mem)
    then have "c \<noteq> CHR '';'' \<and> c \<noteq> CHR 0x0A" using v by auto
    moreover have "?s' ! m = c" unfolding c_def by (rule eq)
    ultimately show "?s' ! m \<noteq> CHR '';'' \<and> ?s' ! m \<noteq> CHR 0x0A" by metis
  qed
  have sp: "is_space (?s' ! ?p)" using nth_mid [of ?p] by (simp add: space_is_space)
  have "?p < ?e" by simp
  from prop_tail_hd [OF this len nth_e sp mid] obtain es where "ends prop_tail ?s' ?p = ?e # es" by blast
  with occ have ends_p: "ends (prop_regex k) ?s' ?p = ?e # es" by (simp add: ends_prop_regex)
  have tk: "take ?n ?s' = take ?n s" using n by (simp add: butlast_conv_take)
  have wn: "word_at ?s' ?n = word_at s ?n"
  proof -
    have "?s' ! ?n = CHR '' ''" using n by (simp add: nth_append)
    moreover have "s ! ?n = last s" using ob(1) by (simp add: last_conv_nth)
    ultimately show ?thesis using ob(2) by (simp add: word_at_def space_not_word)
  qed
  have none: "ends (prop_regex k) ?s' i = []" if "i < ?p" for i
  proof -
    have "\<not> occurs_at k ?s' i"
    proof (cases "i \<le> ?n")
      case True
      from occurs_at_cong [OF tk wn True] noocc show ?thesis by simp
    next
      case False
      define m where "m = (if i = Suc ?n then ?n else Suc ?n)"
      have m: "i - length k \<le> m" "m < i" using False that k(1) n
        by (auto simp: m_def) (cases k; simp)+
      have sm: "?s' ! m = CHR '' ''" using n by (auto simp: m_def nth_append)
      show ?thesis
      proof
        assume "occurs_at k ?s' i"
        from occurs_at_window [OF this m] sm have "CHR '' '' \<in> set k" by simp
        with k(2) space_not_word show False by auto
      qed
    qed
    then show ?thesis by (simp add: ends_prop_regex)
  qed
  have "?p \<le> length ?s'" using n by simp
  then show ?thesis using ends_p none by (intro search_first) auto
qed

section \<open>Writing properties\<close>

lemma occurs_at_subset: "occurs_at k s i \<Longrightarrow> set k \<subseteq> set s"
proof -
  assume "occurs_at k s i"
  then have "take (length k) (drop (i - length k) s) = k" by (simp add: occurs_at_def)
  then have "set k = set (take (length k) (drop (i - length k) s))" by simp
  also have "\<dots> \<subseteq> set (drop (i - length k) s)" by (rule set_take_subset)
  also have "\<dots> \<subseteq> set s" by (rule set_drop_subset)
  finally show ?thesis .
qed

lemma search_no_occurrence: "\<forall>i. \<not> occurs_at k s i \<Longrightarrow> search (prop_regex k) s 0 = None"
  by (simp add: search_None ends_prop_regex)

lemma modObjProps_single:
  assumes "reads re k"
  shows "modObjProps re s [(k, v)] =
     (case search (prop_regex k) s 0 of
        None \<Rightarrow> (if s = [] then Inl IndexError
                 else Inr (butlast s @ ''  '' @ k @ '' '' @ str v @ '';'' @ [CHR 0x0A] @ [last s]))
      | Some (a, b) \<Rightarrow> Inr (take a s @ '' '' @ str v @ drop b s))"
  by (simp add: modObjProps_Cons [OF assms] del: modObjProps.simps(2) split: option.splits)

lemma modObjProps_seq:
  assumes "reads re k"
  shows "modObjProps re s ((k, v) # rest) =
     (case modObjProps re s [(k, v)] of Inl e \<Rightarrow> Inl e | Inr s' \<Rightarrow> modObjProps re s' rest)"
  by (simp add: modObjProps_Cons [OF assms] modObjProps_single [OF assms]
           del: modObjProps.simps(2) split: option.splits)

lemma modObjProps_found:
  assumes rd: "reads re k" and s: "search (prop_regex k) objStr 0 = Some (a, b)"
  shows "modObjProps re objStr [(k, v)] = Inr (take a objStr @ '' '' @ str v @ drop b objStr)
     \<and> length k \<le> a \<and> slice objStr (a - length k) a = k \<and> a < b
     \<and> b < length objStr \<and> hd (drop b objStr) = CHR '';''"
proof -
  from search_prop_regex [OF s] have f: "occurs_at k objStr a" "a < b" "b < length objStr"
    "objStr ! b = CHR '';''" by auto
  from f(1) have lk: "length k \<le> a" "take (length k) (drop (a - length k) objStr) = k"
    by (auto simp: occurs_at_def)
  then have "slice objStr (a - length k) a = k" by (simp add: slice_def drop_take)
  moreover have "hd (drop b objStr) = CHR '';''" using f(3,4) by (simp add: hd_drop_conv_nth)
  ultimately show ?thesis
    using s f lk by (simp add: modObjProps_single [OF rd] del: modObjProps.simps(2))
qed

lemma modObjProps_read_back:
  assumes rd: "reads re k"
    and h: "k \<noteq> [] \<and> (\<forall>c \<in> set k. is_word c) \<and> objStr \<noteq> [] \<and> \<not> is_word (last objStr)
     \<and> (\<forall>i. \<not> occurs_at k objStr i)
     \<and> (\<forall>c \<in> set (str v). c \<noteq> CHR '';'' \<and> c \<noteq> CHR 0x0A)"
  shows "\<exists>s' d e. modObjProps re objStr [(k, v)] = Inr s' \<and> extractProperties re s' [k] = Inr d
        \<and> d k = Some e \<and> pprop e = propStr ('' '' @ str v)"
proof -
  let ?s' = "butlast objStr @ ''  '' @ k @ '' '' @ str v @ '';'' @ [CHR 0x0A] @ [last objStr]"
  let ?p = "length objStr + 1 + length k"
  let ?e = "length objStr + 2 + length k + length (str v)"
  from h have none: "search (prop_regex k) objStr 0 = None" by (simp add: search_no_occurrence)
  with h have m: "modObjProps re objStr [(k, v)] = Inr ?s'"
    by (simp add: modObjProps_single [OF rd] del: modObjProps.simps(2))
  from h have s: "search (prop_regex k) ?s' 0 = Some (?p, ?e)"
    by (intro search_after_append) auto
  have lb: "length (butlast objStr) = length objStr - 1" "0 < length objStr" using h by simp_all
  have "?s' = (butlast objStr @ ''  '' @ k) @ ('' '' @ str v) @ ('';'' @ [CHR 0x0A] @ [last objStr])"
    by simp
  moreover have "length (butlast objStr @ ''  '' @ k) = ?p" using lb by simp
  moreover have "?e = ?p + length ('' '' @ str v)" by simp
  ultimately have sl: "slice ?s' ?p ?e = '' '' @ str v"
    unfolding slice_def by (metis append_eq_conv_conj append.assoc length_append)
  let ?ent = "\<lparr>pprop = propStr (slice ?s' ?p ?e), pstart = ?p, pend = ?e\<rparr>"
  have x: "extractProperties re ?s' [k] = Inr [k \<mapsto> ?ent]"
    using s by (simp add: extractProperties_single [OF rd])
  show ?thesis
  proof (intro exI conjI)
    show "modObjProps re objStr [(k, v)] = Inr ?s'" by (rule m)
    show "extractProperties re ?s' [k] = Inr [k \<mapsto> ?ent]" by (rule x)
    show "[k \<mapsto> ?ent] k = Some ?ent" by simp
    show "pprop ?ent = propStr ('' '' @ str v)" using sl by simp
  qed
qed

text \<open>
  Claim C6, as amended. For a key that is literal (none of its characters is special
  in a pattern), \<^verbatim>\<open>modObjProps\<close> handles the items of the dictionary in order, each
  on the text the earlier ones left. An item whose key is found has the span between
  the key and its semicolon replaced by one space and the new value; the key in front
  of the span and the semicolon behind it stay. An item whose key is not found is
  written, as two spaces, key, space, value, semicolon and newline, in front of the
  last character of the text; on the empty text, which has no last character,
  \<^verbatim>\<open>IndexError\<close> is raised. When the key is a word that does not occur in the text,
  the last character of the text is not a word character and the value has no
  semicolon and no newline, a later \<^verbatim>\<open>extractProperties\<close> for the key gives the value
  without the white space and double quotes at its ends.
\<close>

theorem modObjProps_replace_or_append:
  assumes "faithful re" and "literal k"
  shows "modObjProps re objStr ((k, v) # rest) =
     (case modObjProps re objStr [(k, v)] of Inl e \<Rightarrow> Inl e | Inr s' \<Rightarrow> modObjProps re s' rest)
   \<and> (search (prop_regex k) objStr 0 = Some (a, b) \<longrightarrow>
     modObjProps re objStr [(k, v)] = Inr (take a objStr @ '' '' @ str v @ drop b objStr)
     \<and> length k \<le> a \<and> slice objStr (a - length k) a = k \<and> a < b
     \<and> b < length objStr \<and> hd (drop b objStr) = CHR '';'')
   \<and> (search (prop_regex k) objStr 0 = None \<and> objStr \<noteq> [] \<longrightarrow>
     modObjProps re objStr [(k, v)]
       = Inr (butlast objStr @ ''  '' @ k @ '' '' @ str v @ '';'' @ [CHR 0x0A] @ [last objStr]))
   \<and> (search (prop_regex k) objStr 0 = None \<and> objStr = [] \<longrightarrow>
     modObjProps re objStr [(k, v)] = Inl IndexError)
   \<and> (k \<noteq> [] \<and> (\<forall>c \<in> set k. is_word c) \<and> objStr \<noteq> [] \<and> \<not> is_word (last objStr)
     \<and> (\<forall>i. \<not> occurs_at k objStr i)
     \<and> (\<forall>c \<in> set (str v). c \<noteq> CHR '';'' \<and> c \<noteq> CHR 0x0A) \<longrightarrow>
     (\<exists>s' d e. modObjProps re objStr [(k, v)] = Inr s' \<and> extractProperties re s' [k] = Inr d
        \<and> d k = Some e \<and> pprop e = propStr ('' '' @ str v)))"
proof -
  have rd: "reads re k" using assms by (rule faithful_exp)
  have c1: "modObjProps re objStr ((k, v) # rest) =
     (case modObjProps re objStr [(k, v)] of Inl e \<Rightarrow> Inl e | Inr s' \<Rightarrow> modObjProps re s' rest)"
    by (rule modObjProps_seq [OF rd])
  have c2: "search (prop_regex k) objStr 0 = Some (a, b) \<longrightarrow>
     modObjProps re objStr [(k, v)] = Inr (take a objStr @ '' '' @ str v @ drop b objStr)
     \<and> length k \<le> a \<and> slice objStr (a - length k) a = k \<and> a < b
     \<and> b < length objStr \<and> hd (drop b objStr) = CHR '';''"
    using modObjProps_found [OF rd] by blast
  have c3: "search (prop_regex k) objStr 0 = None \<and> objStr \<noteq> [] \<longrightarrow>
     modObjProps re objStr [(k, v)]
       = Inr (butlast objStr @ ''  '' @ k @ '' '' @ str v @ '';'' @ [CHR 0x0A] @ [last objStr])"
    by (simp add: modObjProps_single [OF rd] del: modObjProps.simps(2))
  have c4: "search (prop_regex k) objStr 0 = None \<and> objStr = [] \<longrightarrow>
     modObjProps re objStr [(k, v)] = Inl IndexError"
    by (auto simp add: modObjProps_single [OF rd] simp del: modObjProps.simps(2))
  have c5: "k \<noteq> [] \<and> (\<forall>c \<in> set k. is_word c) \<and> objStr \<noteq> [] \<and> \<not> is_word (last objStr)
     \<and> (\<forall>i. \<not> occurs_at k objStr i)
     \<and> (\<forall>c \<in> set (str v). c \<noteq> CHR '';'' \<and> c \<noteq> CHR 0x0A) \<longrightarrow>
     (\<exists>s' d e. modObjProps re objStr [(k, v)] = Inr s' \<and> extractProperties re s' [k] = Inr d
        \<and> d k = Some e \<and> pprop e = propStr ('' '' @ str v))"
    using modObjProps_read_back [OF rd, of objStr v] by blast
  show ?thesis using c1 c2 c3 c4 c5 by (intro conjI)
qed

text \<open>
  The two examples of the specification: \<open>tap_A\<close> of the regulator set to 10, the
  \<open>name\<close> statement unchanged, and \<open>switchA\<close> added to the capacitor and read back;
  and the empty text.
\<close>

theorem modObjProps_replace_or_append_witness:
  "search (prop_regex ''tap_A'') (regulator_obj @ [CHR 0x0A]) 0 = Some (37, 39)
   \<and> modObjProps re_compile (regulator_obj @ [CHR 0x0A]) [(''tap_A'', PInt 10)]
       = Inr (''object regulator {'' @ [CHR 0x0A] @ '' name reg1;'' @ [CHR 0x0A]
              @ '' tap_A 10;'' @ [CHR 0x0A] @ ''}'' @ [CHR 0x0A])
   \<and> search (prop_regex ''switchA'') capacitor_obj 0 = None \<and> capacitor_obj \<noteq> []
   \<and> \<not> is_word (last capacitor_obj) \<and> (\<forall>i. \<not> occurs_at ''switchA'' capacitor_obj i)
   \<and> modObjProps re_compile capacitor_obj [(''switchA'', PStr ''CLOSED'')]
       = Inr (''object capacitor {'' @ [CHR 0x0A] @ '' name cap1;'' @ [CHR 0x0A]
              @ ''  switchA CLOSED;'' @ [CHR 0x0A] @ ''}'')
   \<and> (\<exists>s' d e. modObjProps re_compile capacitor_obj [(''switchA'', PStr ''CLOSED'')] = Inr s'
         \<and> extractProperties re_compile s' [''switchA''] = Inr d \<and> d ''switchA'' = Some e
         \<and> pprop e = ''CLOSED'')
   \<and> search (prop_regex ''switchA'') [] 0 = None
   \<and> modObjProps re_compile [] [(''switchA'', PStr ''CLOSED'')] = Inl IndexError"
proof -
  have lt: "literal ''tap_A''" and ls: "literal ''switchA''"
    by (simp_all add: literal_def special_def)
  have r: "search (prop_regex ''tap_A'') (regulator_obj @ [CHR 0x0A]) 0 = Some (37, 39)"
    by code_simp
  have r10: "str (PInt 10) = ''10''" by code_simp
  from modObjProps_replace_or_append [OF faithful_re_compile lt,
      of "regulator_obj @ [CHR 0x0A]" "PInt 10" "[]" 37 39] r
  have 1: "modObjProps re_compile (regulator_obj @ [CHR 0x0A]) [(''tap_A'', PInt 10)]
       = Inr (take 37 (regulator_obj @ [CHR 0x0A]) @ '' '' @ str (PInt 10) @ drop 39 (regulator_obj @ [CHR 0x0A]))"
    by blast
  have 1: "modObjProps re_compile (regulator_obj @ [CHR 0x0A]) [(''tap_A'', PInt 10)]
       = Inr (''object regulator {'' @ [CHR 0x0A] @ '' name reg1;'' @ [CHR 0x0A]
              @ '' tap_A 10;'' @ [CHR 0x0A] @ ''}'' @ [CHR 0x0A])"
    unfolding 1 r10 by (simp add: regulator_obj_def)
  have noA: "CHR ''A'' \<notin> set capacitor_obj" by (simp add: capacitor_obj_def)
  have no: "\<forall>i. \<not> occurs_at ''switchA'' capacitor_obj i"
  proof (intro allI notI)
    fix i assume "occurs_at ''switchA'' capacitor_obj i"
    from occurs_at_subset [OF this] noA show False by auto
  qed
  have n: "search (prop_regex ''switchA'') capacitor_obj 0 = None"
    using no by (rule search_no_occurrence)
  have ne: "capacitor_obj \<noteq> []" by (simp add: capacitor_obj_def)
  have lw: "\<not> is_word (last capacitor_obj)" by (simp add: capacitor_obj_def is_word_def)
  have kw: "\<forall>c \<in> set ''switchA''. is_word c" by (simp add: is_word_def)
  have vw: "\<forall>c \<in> set (str (PStr ''CLOSED'')). c \<noteq> CHR '';'' \<and> c \<noteq> CHR 0x0A" by simp
  have ps: "propStr ('' '' @ str (PStr ''CLOSED'')) = ''CLOSED''" by code_simp
  note t = modObjProps_replace_or_append [OF faithful_re_compile ls,
      of capacitor_obj "PStr ''CLOSED''" "[]" 0 0]
  from t n ne have 2: "modObjProps re_compile capacitor_obj [(''switchA'', PStr ''CLOSED'')]
       = Inr (butlast capacitor_obj @ ''  '' @ ''switchA'' @ '' '' @ str (PStr ''CLOSED'') @ '';''
              @ [CHR 0x0A] @ [last capacitor_obj])" by blast
  have 2: "modObjProps re_compile capacitor_obj [(''switchA'', PStr ''CLOSED'')]
       = Inr (''object capacitor {'' @ [CHR 0x0A] @ '' name cap1;'' @ [CHR 0x0A]
              @ ''  switchA CLOSED;'' @ [CHR 0x0A] @ ''}'')"
    unfolding 2 by (simp add: capacitor_obj_def)
  from t ne lw no kw vw have "\<exists>s' d e. modObjProps re_compile capacitor_obj [(''switchA'', PStr ''CLOSED'')] = Inr s'
         \<and> extractProperties re_compile s' [''switchA''] = Inr d \<and> d ''switchA'' = Some e
         \<and> pprop e = propStr ('' '' @ str (PStr ''CLOSED''))" by blast
  then have 3: "\<exists>s' d e. modObjProps re_compile capacitor_obj [(''switchA'', PStr ''CLOSED'')] = Inr s'
         \<and> extractProperties re_compile s' [''switchA''] = Inr d \<and> d ''switchA'' = Some e
         \<and> pprop e = ''CLOSED''" unfolding ps .
  have n0: "search (prop_regex ''switchA'') [] 0 = None" by code_simp
  from modObjProps_replace_or_append [OF faithful_re_compile ls,
      of "[]" "PStr ''CLOSED''" "[]" 0 0] n0
  have 4: "modObjProps re_compile [] [(''switchA'', PStr ''CLOSED'')] = Inl IndexError" by blast
  from r 1 n ne lw no 2 3 n0 4 show ?thesis by blast
qed

text \<open>
  On a text that ends with a newline after the closing brace the new statement lands
  behind the brace; and a value in double quotes is read back without them.
\<close>

theorem modObjProps_append_counterexample:
  "modObjProps re_compile (capacitor_obj @ [CHR 0x0A]) [(''switchA'', PStr ''CLOSED'')]
     = Inr (capacitor_obj @ ''  switchA CLOSED;'' @ [CHR 0x0A] @ [CHR 0x0A])
   \<and> (case modObjProps re_compile capacitor_obj [(''lu_solver'', PStr ''\"KLU\"'')] of
         Inl _ \<Rightarrow> False
       | Inr s' \<Rightarrow> (case extractProperties re_compile s' [''lu_solver''] of
                      Inl _ \<Rightarrow> False
                    | Inr d \<Rightarrow> map_option pprop (d ''lu_solver'') = Some ''KLU''))"
  by code_simp

section \<open>Resolving an object by name and type\<close>














section \<open>The iteration over the objects of a type\<close>

















section \<open>Writing the same properties twice\<close>

lemma space_not_word': "is_space c \<Longrightarrow> \<not> is_word c"
  by (auto simp: is_space_def is_word_def)

lemma slice_put_back:
  assumes "a \<le> b" "b \<le> length s"
  shows "take a s @ slice s a b @ drop b s = s"
proof -
  have "take a s @ slice s a b = take b s"
    using assms by (metis slice_def append_take_drop_id min.absorb2 take_take min.commute)
  then show ?thesis by (metis append.assoc append_take_drop_id)
qed

lemma settled_fixpoint:
  "\<forall>kv \<in> set m. reads re (fst kv) \<Longrightarrow> settled s m \<Longrightarrow> modObjProps re s m = Inr s"
proof (induction m)
  case Nil show ?case by simp
next
  case (Cons kv m)
  obtain k v where kv: "kv = (k, v)" by (cases kv)
  have rd: "reads re k" using Cons.prems(1) kv by simp
  from Cons.prems kv obtain a b where s: "search (prop_regex k) s 0 = Some (a, b)"
    and sl: "slice s a b = '' '' @ str v" by (auto simp: settled_def)
  from search_prop_regex [OF s] have "a \<le> b" "b \<le> length s" by auto
  from slice_put_back [OF this] sl have "take a s @ '' '' @ str v @ drop b s = s" by simp
  moreover have "settled s m" using Cons.prems by (simp add: settled_def)
  ultimately show ?case using Cons.IH Cons.prems(1) s kv
    by (simp add: modObjProps_Cons [OF rd] del: modObjProps.simps)
qed

lemma search_after_replace:
  assumes s: "search (prop_regex k) s 0 = Some (a, b)"
      and first: "\<forall>i<a. \<not> occurs_at k s i"
      and v: "\<forall>c \<in> set v. c \<noteq> CHR '';'' \<and> c \<noteq> CHR 0x0A"
  shows "search (prop_regex k) (take a s @ '' '' @ v @ drop b s) 0 = Some (a, a + 1 + length v)"
proof -
  let ?s' = "take a s @ '' '' @ v @ drop b s"
  let ?e = "a + 1 + length v"
  from search_prop_regex [OF s] have f: "occurs_at k s a" "a < b" "b < length s"
    "s ! b = CHR '';''" "is_space (s ! a)" by auto
  have la: "length (take a s) = a" using f by simp
  have tk: "take a ?s' = take a s" using la by simp
  have sa: "?s' ! a = CHR '' ''" using la by (simp add: nth_append)
  have wa: "word_at ?s' a = word_at s a"
    using sa f(5) space_not_word' space_not_word by (simp add: word_at_def)
  have occ: "occurs_at k ?s' a" using occurs_at_cong [OF tk wa, of a k] f(1) by simp
  have none: "ends (prop_regex k) ?s' i = []" if "i < a" for i
  proof -
    have "occurs_at k ?s' i = occurs_at k s i" using that by (intro occurs_at_cong [OF tk wa]) simp
    with first that show ?thesis by (simp add: ends_prop_regex)
  qed
  have s'2: "?s' = take a s @ ('' '' @ v) @ drop b s" by simp
  have nth_mid: "?s' ! m = ('' '' @ v) ! (m - a)" if "a \<le> m" "m < ?e" for m
  proof -
    have "m - a < length ('' '' @ v)" using that by auto
    then show ?thesis unfolding s'2 using that la by (simp only: nth_append) (simp add: nth_append)
  qed
  have db: "drop b s = CHR '';'' # drop (Suc b) s" using Cons_nth_drop_Suc [of b s] f(3,4) by simp
  have nth_e: "?s' ! ?e = CHR '';''"
  proof -
    have "?e = length (take a s @ ('' '' @ v))" using la by simp
    then show ?thesis unfolding s'2 db by (metis append.assoc nth_append_length)
  qed
  have len: "?e < length ?s'" using la f by (simp add: db)
  have mid: "\<forall>m. a \<le> m \<and> m < ?e \<longrightarrow> ?s' ! m \<noteq> CHR '';'' \<and> ?s' ! m \<noteq> CHR 0x0A"
  proof (intro allI impI)
    fix m assume am: "a \<le> m \<and> m < ?e"
    then have eq: "?s' ! m = ('' '' @ v) ! (m - a)" using nth_mid by simp
    define c where "c = ('' '' @ v) ! (m - a)"
    have "m - a < length ('' '' @ v)" using am by auto
    then have "c \<in> set ('' '' @ v)" unfolding c_def by (rule nth_mem)
    then have "c \<noteq> CHR '';'' \<and> c \<noteq> CHR 0x0A" using v by auto
    moreover have "?s' ! m = c" unfolding c_def by (rule eq)
    ultimately show "?s' ! m \<noteq> CHR '';'' \<and> ?s' ! m \<noteq> CHR 0x0A" by metis
  qed
  have sp: "is_space (?s' ! a)" using sa by (simp add: space_is_space)
  have "a < ?e" by simp
  from prop_tail_hd [OF this len nth_e sp mid] obtain es where "ends prop_tail ?s' a = ?e # es" by blast
  with occ have ends_a: "ends (prop_regex k) ?s' a = ?e # es" by (simp add: ends_prop_regex)
  have "a \<le> length ?s'" using la by simp
  then show ?thesis using ends_a none by (intro search_first) auto
qed

lemma slice_mid: "slice (xs @ ys @ zs) (length xs) (length xs + length ys) = ys"
  by (simp add: slice_def)

lemma single_settles:
  assumes rd: "reads re k" and k: "k \<noteq> []" "\<forall>c \<in> set k. is_word c"
      and v: "\<forall>c \<in> set (str v). c \<noteq> CHR '';'' \<and> c \<noteq> CHR 0x0A"
      and ob: "s \<noteq> []" "\<not> is_word (last s)"
      and kf: "key_first k s"
  shows "\<exists>s'. modObjProps re s [(k, v)] = Inr s' \<and> settled s' [(k, v)]"
proof (cases "search (prop_regex k) s 0")
  case None
  let ?s' = "butlast s @ ''  '' @ k @ '' '' @ str v @ '';'' @ [CHR 0x0A] @ [last s]"
  let ?p = "length s + 1 + length k"
  let ?e = "length s + 2 + length k + length (str v)"
  from kf None have no: "\<forall>i. \<not> occurs_at k s i" by (simp add: key_first_def)
  have m: "modObjProps re s [(k, v)] = Inr ?s'"
    using None ob(1) by (simp add: modObjProps_single [OF rd] del: modObjProps.simps)
  have sr: "search (prop_regex k) ?s' 0 = Some (?p, ?e)"
    by (rule search_after_append [OF k ob no v])
  have lb: "length (butlast s @ ''  '' @ k) = ?p" using ob(1) by simp
  have "?s' = (butlast s @ ''  '' @ k) @ ('' '' @ str v) @ ('';'' @ [CHR 0x0A] @ [last s])" by simp
  then have "slice ?s' ?p (?p + length ('' '' @ str v)) = '' '' @ str v"
    using slice_mid [of "butlast s @ ''  '' @ k" "'' '' @ str v"] lb by metis
  then have "slice ?s' ?p ?e = '' '' @ str v" by simp
  with sr have "settled ?s' [(k, v)]" by (simp add: settled_def)
  with m show ?thesis by blast
next
  case (Some ab)
  obtain a b where ab: "ab = (a, b)" by (cases ab)
  note s = Some [unfolded ab]
  let ?s' = "take a s @ '' '' @ str v @ drop b s"
  from kf s have first: "\<forall>i<a. \<not> occurs_at k s i" by (simp add: key_first_def)
  from search_prop_regex [OF s] have f: "a < b" "b < length s" by auto
  have m: "modObjProps re s [(k, v)] = Inr ?s'"
    using s by (simp add: modObjProps_single [OF rd] del: modObjProps.simps)
  have sr: "search (prop_regex k) ?s' 0 = Some (a, a + 1 + length (str v))"
    by (rule search_after_replace [OF s first v])
  have la: "length (take a s) = a" using f by simp
  have "?s' = take a s @ ('' '' @ str v) @ drop b s" by simp
  then have "slice ?s' a (a + length ('' '' @ str v)) = '' '' @ str v"
    using slice_mid [of "take a s" "'' '' @ str v"] la by metis
  then have "slice ?s' a (a + 1 + length (str v)) = '' '' @ str v" by simp
  with sr have "settled ?s' [(k, v)]" by (simp add: settled_def)
  with m show ?thesis by blast
qed


end
